theory Spec2Isabelle
  imports Complex_Main "HOL-Library.Product_Lexorder" "HOL-Library.Multiset" "HOL-Library.Log_Nat"
begin

section \<open>Floating-point costs\<close>

text \<open>
  Movement costs are Python floats, that is IEEE 754 binary64 numbers.  A float is
  modelled by the rational number it denotes.  The result of an operation is the exact
  result rounded to 53 significant bits, to the nearest representable number, ties to
  the even significand.  The exponent range is taken unbounded: overflow to infinity
  (above \<open>2 ^ 1024\<close>) and gradual underflow (below \<open>2 ^ - 1022\<close>) are not modelled;
  the costs of the program are 0 or at least 1.
\<close>

type_synonym cost = rat

text \<open>The binary exponent of a positive number: \<open>2 ^ e \<le> x < 2 ^ (e + 1)\<close>.\<close>

definition float_exp :: "rat \<Rightarrow> int" where
  "float_exp x = (case quotient_of x of (p, q) \<Rightarrow>
     let k = bitlen p - bitlen q in if 2 powi k \<le> x then k else k - 1)"

lemma bitlen_powi:
  assumes "0 < p"
  shows "(2::rat) powi (bitlen p - 1) \<le> of_int p" and "of_int p < (2::rat) powi bitlen p"
proof -
  have b: "2 ^ nat (bitlen p - 1) \<le> p" "p < 2 ^ nat (bitlen p)"
    using bitlen_bounds [OF assms] by auto
  have pos: "1 \<le> bitlen p"
  proof (rule ccontr)
    assume "\<not> 1 \<le> bitlen p"
    then have "nat (bitlen p) = 0" by simp
    then show False using b(2) assms by simp
  qed
  have "(2::rat) powi (bitlen p - 1) = 2 ^ nat (bitlen p - 1)"
    using pos by (simp add: power_int_def)
  also have "\<dots> = of_int (2 ^ nat (bitlen p - 1))" by simp
  also have "\<dots> \<le> of_int p" using b(1) by (simp only: of_int_le_iff)
  finally show "(2::rat) powi (bitlen p - 1) \<le> of_int p" .
  have "(of_int p :: rat) < of_int (2 ^ nat (bitlen p))" using b(2) by (simp only: of_int_less_iff)
  also have "\<dots> = 2 ^ nat (bitlen p)" by simp
  also have "\<dots> = 2 powi bitlen p" using pos by (simp add: power_int_def)
  finally show "of_int p < (2::rat) powi bitlen p" .
qed

lemma powi_less_cancel:
  assumes "(2::rat) powi m < 2 powi n"
  shows "m < n"
proof (rule ccontr)
  assume "\<not> m < n"
  then have "(2::rat) powi n \<le> 2 powi m" by (intro power_int_increasing) simp_all
  then show False using assms by simp
qed

lemma float_exp_bounds:
  assumes "0 < x"
  shows "2 powi float_exp x \<le> x" and "x < 2 powi (float_exp x + 1)"
proof -
  obtain p q where pq: "quotient_of x = (p, q)" by (cases "quotient_of x")
  have q: "0 < q" using pq by (rule quotient_of_denom_pos)
  have x: "x = of_int p / of_int q" using pq by (rule quotient_of_div)
  have p: "0 < p" using assms q unfolding x by (simp add: zero_less_divide_iff)
  let ?k = "bitlen p - bitlen q"
  have qr: "(0::rat) < of_int q" using q by simp
  have "x < 2 powi bitlen p / 2 powi (bitlen q - 1)"
  proof -
    have "x < 2 powi bitlen p / of_int q"
      unfolding x using bitlen_powi(2) [OF p] qr by (simp add: divide_strict_right_mono)
    also have "\<dots> \<le> 2 powi bitlen p / 2 powi (bitlen q - 1)"
      using bitlen_powi(1) [OF q] qr by (intro divide_left_mono mult_pos_pos) simp_all
    finally show ?thesis .
  qed
  also have "\<dots> = 2 powi (bitlen p - (bitlen q - 1))"
    by (rule power_int_diff [symmetric]) simp
  also have "bitlen p - (bitlen q - 1) = ?k + 1" by simp
  finally have up: "x < 2 powi (?k + 1)" .
  have "(2::rat) powi (?k - 1) = 2 powi ((bitlen p - 1) - bitlen q)"
    by (rule arg_cong [where f = "power_int 2"]) simp
  also have "\<dots> = 2 powi (bitlen p - 1) / 2 powi bitlen q"
    by (rule power_int_diff) simp
  also have "\<dots> \<le> of_int p / 2 powi bitlen q"
    using bitlen_powi(1) [OF p] by (intro divide_right_mono) simp_all
  also have "\<dots> \<le> x"
    unfolding x using bitlen_powi(2) [OF q] p qr by (intro divide_left_mono) simp_all
  finally have lo: "2 powi (?k - 1) \<le> x" .
  show "2 powi float_exp x \<le> x"
    using lo by (simp add: float_exp_def pq Let_def)
  show "x < 2 powi (float_exp x + 1)"
    using up by (auto simp: float_exp_def pq Let_def not_le)
qed

lemma float_exp_unique:
  assumes "(2::rat) powi e \<le> x" and "x < 2 powi (e + 1)"
  shows "float_exp x = e"
proof -
  have x: "0 < x" using assms(1) by (rule less_le_trans [rotated]) simp
  note b = float_exp_bounds [OF x]
  have "(2::rat) powi e < 2 powi (float_exp x + 1)" using assms(1) b(2) by simp
  then have 1: "e < float_exp x + 1" by (rule powi_less_cancel)
  have "(2::rat) powi float_exp x < 2 powi (e + 1)" using assms(2) b(1) by simp
  then have 2: "float_exp x < e + 1" by (rule powi_less_cancel)
  show ?thesis using 1 2 by simp
qed

lemma float_exp_mono:
  assumes "0 < x" and "x \<le> y"
  shows "float_exp x \<le> float_exp y"
proof -
  have y: "0 < y" using assms by simp
  have "(2::rat) powi float_exp x < 2 powi (float_exp y + 1)"
    using float_exp_bounds(1) [OF assms(1)] float_exp_bounds(2) [OF y] assms(2) by simp
  then have "float_exp x < float_exp y + 1" by (rule powi_less_cancel)
  then show ?thesis by simp
qed


text \<open>Rounding to the nearest integer, ties to even.\<close>

definition rne :: "rat \<Rightarrow> int" where
  "rne x = (let n = \<lfloor>x\<rfloor>; d = x - of_int n in
     if d < 1 / 2 then n else if 1 / 2 < d then n + 1 else if even n then n else n + 1)"

lemma rne_of_int: "rne (of_int n) = n"
  by (simp add: rne_def)

lemma rne_bounds: "\<lfloor>x\<rfloor> \<le> rne x \<and> rne x \<le> \<lfloor>x\<rfloor> + 1"
  by (simp add: rne_def Let_def)

lemma rne_mono:
  assumes "x \<le> y"
  shows "rne x \<le> rne y"
proof (cases "\<lfloor>x\<rfloor> = \<lfloor>y\<rfloor>")
  case True
  then have "x - of_int \<lfloor>x\<rfloor> \<le> y - of_int \<lfloor>y\<rfloor>" using assms by simp
  then show ?thesis using True by (auto simp: rne_def Let_def)
next
  case False
  moreover have "\<lfloor>x\<rfloor> \<le> \<lfloor>y\<rfloor>" using assms by (rule floor_mono)
  ultimately have "\<lfloor>x\<rfloor> + 1 \<le> \<lfloor>y\<rfloor>" by simp
  then show ?thesis using rne_bounds [of x] rne_bounds [of y] by linarith
qed

lemma rne_ge: "of_int n \<le> x \<Longrightarrow> n \<le> rne x"
  using rne_mono [of "of_int n" x] by (simp add: rne_of_int)

lemma rne_le: "x \<le> of_int n \<Longrightarrow> rne x \<le> n"
  using rne_mono [of x "of_int n"] by (simp add: rne_of_int)

text \<open>Rounding to the nearest binary64 number.\<close>

definition float_round :: "rat \<Rightarrow> rat" where
  "float_round x = (if x = 0 then 0
     else let s = 2 powi (float_exp \<bar>x\<bar> - 52) in of_int (rne (x / s)) * s)"

lemma float_round_pos:
  assumes "0 < x"
  shows "float_round x = of_int (rne (x / 2 powi (float_exp x - 52))) * 2 powi (float_exp x - 52)"
  using assms by (simp add: float_round_def Let_def)

lemma powi_split:
  "(2::rat) powi e = 2 ^ 52 * 2 powi (e - 52)" "(2::rat) powi (e + 1) = 2 ^ 53 * 2 powi (e - 52)"
proof -
  have "(2::rat) powi e = 2 powi (52 + (e - 52))"
    by (rule arg_cong [where f = "power_int 2"]) simp
  also have "\<dots> = 2 powi 52 * 2 powi (e - 52)" by (rule power_int_add) simp
  finally show "(2::rat) powi e = 2 ^ 52 * 2 powi (e - 52)" by simp
  have "(2::rat) powi (e + 1) = 2 powi (53 + (e - 52))"
    by (rule arg_cong [where f = "power_int 2"]) simp
  also have "\<dots> = 2 powi 53 * 2 powi (e - 52)" by (rule power_int_add) simp
  finally show "(2::rat) powi (e + 1) = 2 ^ 53 * 2 powi (e - 52)" by simp
qed

lemma float_scaled:
  assumes "0 < x"
  shows "2 ^ 52 \<le> x / 2 powi (float_exp x - 52)" and "x / 2 powi (float_exp x - 52) < 2 ^ 53"
proof -
  let ?e = "float_exp x"
  note s = powi_split(1) [of ?e] and s' = powi_split(2) [of ?e]
  have pos: "(0::rat) < 2 powi (?e - 52)" by simp
  show "2 ^ 52 \<le> x / 2 powi (?e - 52)"
    using float_exp_bounds(1) [OF assms] pos unfolding s by (simp add: pos_le_divide_eq)
  show "x / 2 powi (?e - 52) < 2 ^ 53"
    using float_exp_bounds(2) [OF assms] pos unfolding s' by (simp add: pos_divide_less_eq)
qed

lemma float_mantissa:
  assumes "0 < x"
  shows "2 ^ 52 \<le> rne (x / 2 powi (float_exp x - 52))"
    and "rne (x / 2 powi (float_exp x - 52)) \<le> 2 ^ 53"
proof -
  have "(of_int (2 ^ 52) :: rat) \<le> x / 2 powi (float_exp x - 52)"
    using float_scaled(1) [OF assms] by simp
  then show "2 ^ 52 \<le> rne (x / 2 powi (float_exp x - 52))" by (rule rne_ge)
  have "x / 2 powi (float_exp x - 52) \<le> of_int (2 ^ 53)"
    using float_scaled(2) [OF assms] by simp
  then show "rne (x / 2 powi (float_exp x - 52)) \<le> 2 ^ 53" by (rule rne_le)
qed

lemma float_round_bounds:
  assumes "0 < x"
  shows "2 powi float_exp x \<le> float_round x" and "float_round x \<le> 2 powi (float_exp x + 1)"
proof -
  let ?e = "float_exp x"
  let ?m = "rne (x / 2 powi (?e - 52))"
  note s = powi_split(1) [of ?e] and s' = powi_split(2) [of ?e]
  have "(of_int (2 ^ 52) :: rat) \<le> of_int ?m"
    using float_mantissa(1) [OF assms] by (simp only: of_int_le_iff)
  then have "(2 ^ 52 :: rat) * 2 powi (?e - 52) \<le> of_int ?m * 2 powi (?e - 52)"
    by (intro mult_right_mono) simp_all
  then show "2 powi ?e \<le> float_round x"
    unfolding s float_round_pos [OF assms] .
  have "(of_int ?m :: rat) \<le> of_int (2 ^ 53)"
    using float_mantissa(2) [OF assms] by (simp only: of_int_le_iff)
  then have "of_int ?m * 2 powi (?e - 52) \<le> (2 ^ 53 :: rat) * 2 powi (?e - 52)"
    by (intro mult_right_mono) simp_all
  then show "float_round x \<le> 2 powi (?e + 1)"
    unfolding s' float_round_pos [OF assms] .
qed

lemma float_round_gt0:
  assumes "0 < x"
  shows "0 < float_round x"
proof -
  have "(0::rat) < 2 powi float_exp x" by simp
  then show ?thesis using float_round_bounds(1) [OF assms] by (rule less_le_trans)
qed

lemma float_round_mono:
  assumes "0 < x" and "x \<le> y"
  shows "float_round x \<le> float_round y"
proof -
  have y: "0 < y" using assms by simp
  have e: "float_exp x \<le> float_exp y" using assms by (rule float_exp_mono)
  show ?thesis
  proof (cases "float_exp x = float_exp y")
    case True
    let ?s = "(2::rat) powi (float_exp y - 52)"
    have "x / ?s \<le> y / ?s" using assms(2) by (intro divide_right_mono) simp_all
    then have "rne (x / ?s) \<le> rne (y / ?s)" by (rule rne_mono)
    then have "(of_int (rne (x / ?s)) :: rat) \<le> of_int (rne (y / ?s))" by (simp only: of_int_le_iff)
    then have "of_int (rne (x / ?s)) * ?s \<le> of_int (rne (y / ?s)) * ?s"
      by (intro mult_right_mono) simp_all
    then show ?thesis
      unfolding float_round_pos [OF assms(1)] float_round_pos [OF y] True .
  next
    case False
    then have "float_exp x + 1 \<le> float_exp y" using e by simp
    then have "(2::rat) powi (float_exp x + 1) \<le> 2 powi float_exp y"
      by (intro power_int_increasing) simp_all
    then show ?thesis
      using float_round_bounds(2) [OF assms(1)] float_round_bounds(1) [OF y] by simp
  qed
qed

lemma float_round_idem:
  assumes "0 < x"
  shows "float_round (float_round x) = float_round x"
proof -
  let ?e = "float_exp x"
  let ?s = "(2::rat) powi (?e - 52)"
  let ?m = "rne (x / ?s)"
  have fx: "float_round x = of_int ?m * ?s" using assms by (rule float_round_pos)
  have pos: "0 < float_round x" using assms by (rule float_round_gt0)
  have spos: "0 < ?s" by simp
  show ?thesis
  proof (cases "?m = 2 ^ 53")
    case True
    have v: "float_round x = 2 powi (?e + 1)"
      unfolding fx True powi_split(2) [of ?e] by simp
    have "float_exp (float_round x) = ?e + 1"
      unfolding v by (rule float_exp_unique) (simp_all add: power_int_strict_increasing)
    then have "float_round (float_round x)
        = of_int (rne (2 powi (?e + 1) / 2 powi (?e + 1 - 52))) * 2 powi (?e + 1 - 52)"
      using float_round_pos [OF pos] v by simp
    also have "(2::rat) powi (?e + 1) / 2 powi (?e + 1 - 52) = of_int (2 ^ 52)"
      unfolding powi_split(1) [of "?e + 1"] by simp
    also have "rne (of_int (2 ^ 52)) = 2 ^ 52" by (rule rne_of_int)
    also have "of_int (2 ^ 52) * 2 powi (?e + 1 - 52) = (2::rat) powi (?e + 1)"
      unfolding powi_split(1) [of "?e + 1"] by simp
    finally show ?thesis using v by simp
  next
    case False
    then have lt: "?m < 2 ^ 53" using float_mantissa(2) [OF assms] by simp
    note s' = powi_split(2) [of ?e]
    have "(of_int ?m :: rat) < of_int (2 ^ 53)" using lt by (simp only: of_int_less_iff)
    then have "of_int ?m * ?s < (2 ^ 53 :: rat) * ?s"
      by (intro mult_strict_right_mono) simp_all
    then have up: "float_round x < 2 powi (?e + 1)" unfolding fx s' .
    have ex: "float_exp (float_round x) = ?e"
      using float_round_bounds(1) [OF assms] up by (rule float_exp_unique)
    have "float_round (float_round x) = of_int (rne (of_int ?m * ?s / ?s)) * ?s"
      using float_round_pos [OF pos] ex fx by simp
    also have "of_int ?m * ?s / ?s = (of_int ?m :: rat)" by simp
    also have "rne (of_int ?m) = ?m" by (rule rne_of_int)
    finally show ?thesis using fx by simp
  qed
qed

text \<open>Addition of two floats.\<close>

definition fadd :: "cost \<Rightarrow> cost \<Rightarrow> cost" where
  "fadd x y = float_round (x + y)"

lemma fadd_pos: "0 \<le> a \<Longrightarrow> 0 < w \<Longrightarrow> 0 < fadd a w"
  unfolding fadd_def by (rule float_round_gt0) simp

lemma fadd_float: "0 \<le> a \<Longrightarrow> 0 < w \<Longrightarrow> float_round (fadd a w) = fadd a w"
  unfolding fadd_def by (rule float_round_idem) simp

lemma fadd_mono: "0 \<le> a \<Longrightarrow> a \<le> b \<Longrightarrow> 0 < w \<Longrightarrow> fadd a w \<le> fadd b w"
  unfolding fadd_def by (rule float_round_mono) simp_all

lemma fadd_ge:
  assumes "0 \<le> a" and "float_round a = a" and "0 < w"
  shows "a \<le> fadd a w"
proof (cases "a = 0")
  case True
  then show ?thesis using fadd_pos [OF assms(1,3)] by simp
next
  case False
  then have "0 < a" using assms(1) by simp
  then have "float_round a \<le> float_round (a + w)"
    using assms(3) by (intro float_round_mono) simp_all
  then show ?thesis using assms(2) by (simp add: fadd_def)
qed


text \<open>The two cost literals of the program, and an instance of the rounding: adding the
  same three costs in two orders gives two different floats.\<close>

lemma float_round_one: "float_round 1.0 = 1"
  by code_simp

lemma float_round_diagonal: "float_round 1.414 = 6368089873101881 / 2 ^ 52"
  by code_simp

lemma fadd_order_matters:
  "fadd (fadd 1.0 (float_round 1.414)) (float_round 1.414)
     < fadd (fadd (float_round 1.414) (float_round 1.414)) 1.0"
  by code_simp

section \<open>Grid model\<close>

text \<open>
  A position is a pair of Python integers (row, column).
\<close>

type_synonym pos = "int \<times> int"

record grid =
  rows :: int
  cols :: int
  start :: pos
  goal :: pos
  walls :: "pos set"

definition ROWS :: int where "ROWS = 10"
definition COLS :: int where "COLS = 10"

text \<open>Clockwise movement order: up, right, down, down-right, left, up-left.\<close>

definition DIRECTIONS :: "(int \<times> int) list" where
  "DIRECTIONS = [(-1, 0), (0, 1), (1, 0), (1, 1), (0, -1), (-1, -1)]"

fun is_valid :: "grid \<Rightarrow> pos \<Rightarrow> bool" where
  "is_valid g (r, c) =
     (if r < 0 \<or> r \<ge> rows g \<or> c < 0 \<or> c \<ge> cols g then False
      else if (r, c) \<in> walls g then False
      else True)"

text \<open>The \<open>for\<close> loop of \<open>get_neighbors\<close> over the direction list, appending to \<open>result\<close>.\<close>

fun get_neighbors_loop :: "grid \<Rightarrow> pos \<Rightarrow> (int \<times> int) list \<Rightarrow> (pos \<times> cost) list \<Rightarrow> (pos \<times> cost) list" where
  "get_neighbors_loop g (r, c) [] result = result"
| "get_neighbors_loop g (r, c) ((dr, dc) # ds) result =
     (let nbr = (r + dr, c + dc) in
      if is_valid g nbr
      then (let cost = (if dr \<noteq> 0 \<and> dc \<noteq> 0 then float_round 1.414 else float_round 1.0) in
            get_neighbors_loop g (r, c) ds (result @ [(nbr, cost)]))
      else get_neighbors_loop g (r, c) ds result)"

definition get_neighbors :: "grid \<Rightarrow> pos \<Rightarrow> (pos \<times> cost) list" where
  "get_neighbors g p = get_neighbors_loop g p DIRECTIONS []"

text \<open>The six candidate moves from a cell, in the clockwise priority order, with their costs.\<close>

definition candidates :: "pos \<Rightarrow> (pos \<times> cost) list" where
  "candidates p = (case p of (r, c) \<Rightarrow>
     [((r - 1, c), float_round 1.0), ((r, c + 1), float_round 1.0),
      ((r + 1, c), float_round 1.0), ((r + 1, c + 1), float_round 1.414),
      ((r, c - 1), float_round 1.0), ((r - 1, c - 1), float_round 1.414)])"

lemma get_neighbors_loop_filter:
  "get_neighbors_loop g (r, c) ds result =
     result @ filter (\<lambda>(q, w). is_valid g q)
       (map (\<lambda>(dr, dc). ((r + dr, c + dc), if dr \<noteq> 0 \<and> dc \<noteq> 0 then float_round 1.414 else float_round 1.0)) ds)"
  by (induction ds arbitrary: result) (auto simp: Let_def)

section \<open>Step recording and path reconstruction\<close>

record step =
  current :: pos
  frontier :: "pos list"
  visited :: "pos set"

definition make_step :: "pos \<Rightarrow> pos list \<Rightarrow> pos set \<Rightarrow> step" where
  "make_step cur fr vis = \<lparr>current = cur, frontier = fr, visited = vis\<rparr>"

text \<open>
  A parent dictionary maps a position to its parent or to Python's \<open>None\<close> (the
  start).  \<open>dict_get\<close> is \<open>dict.get\<close>: a missing key also gives \<open>None\<close>.
\<close>

type_synonym parents = "pos \<rightharpoonup> pos option"

definition dict_get :: "parents \<Rightarrow> pos \<Rightarrow> pos option" where
  "dict_get m k = (case m k of None \<Rightarrow> None | Some v \<Rightarrow> v)"

partial_function (option) reconstruct_loop :: "parents \<Rightarrow> pos \<Rightarrow> pos list \<Rightarrow> pos list option" where
  "reconstruct_loop came_from node path =
     (case dict_get came_from node of
        None \<Rightarrow> Some path
      | Some p \<Rightarrow> reconstruct_loop came_from p (path @ [p]))"

declare reconstruct_loop.simps [code]

definition reconstruct_path :: "parents \<Rightarrow> pos \<Rightarrow> pos list option" where
  "reconstruct_path came_from gl = map_option rev (reconstruct_loop came_from gl [gl])"

type_synonym result = "(step list \<times> pos list) option"

definition cells :: "grid \<Rightarrow> pos set" where
  "cells g = {p. is_valid g p}"

lemma cells_finite: "finite (cells g)"
proof -
  have "cells g \<subseteq> {0..<rows g} \<times> {0..<cols g}"
    by (auto simp: cells_def split: if_splits)
  then show ?thesis by (rule finite_subset) simp
qed

lemma get_neighbors_cells: "(q, w) \<in> set (get_neighbors g p) \<Longrightarrow> q \<in> cells g"
  by (cases p) (auto simp: get_neighbors_def get_neighbors_loop_filter cells_def)

section \<open>Breadth-first search\<close>

fun bfs_expand :: "pos set \<Rightarrow> pos \<Rightarrow> (pos \<times> cost) list \<Rightarrow> pos list \<times> pos set \<times> parents
    \<Rightarrow> pos list \<times> pos set \<times> parents" where
  "bfs_expand vis cur [] (queue, in_queue, came_from) = (queue, in_queue, came_from)"
| "bfs_expand vis cur ((nbr, w) # ns) (queue, in_queue, came_from) =
     (if nbr \<notin> vis \<and> nbr \<notin> in_queue
      then bfs_expand vis cur ns (queue @ [nbr], insert nbr in_queue, came_from(nbr \<mapsto> Some cur))
      else bfs_expand vis cur ns (queue, in_queue, came_from))"

lemma bfs_expand_queue:
  "bfs_expand vis cur ns (q, iq, cf) = (q', iq', cf') \<Longrightarrow> set q' \<subseteq> set q \<union> fst ` set ns"
  by (induction ns arbitrary: q iq cf) (fastforce split: if_splits)+

function bfs_loop :: "grid \<Rightarrow> pos list \<Rightarrow> pos set \<Rightarrow> parents \<Rightarrow> pos set \<Rightarrow> step list \<Rightarrow> result" where
  "bfs_loop g [] in_queue came_from vis steps = Some (steps, [])"
| "bfs_loop g (cur # queue) in_queue came_from vis steps =
     (let in_queue1 = in_queue - {cur};
          steps1 = steps @ [make_step cur queue vis]
      in if cur = goal g then map_option (Pair steps1) (reconstruct_path came_from cur)
         else if cur \<in> vis then bfs_loop g queue in_queue1 came_from vis steps1
         else (let vis1 = insert cur vis;
                   (queue2, in_queue2, came_from2) =
                      bfs_expand vis1 cur (get_neighbors g cur) (queue, in_queue1, came_from)
               in bfs_loop g queue2 in_queue2 came_from2 vis1 steps1))"
  by pat_completeness auto

definition todo :: "grid \<Rightarrow> pos list \<Rightarrow> pos set \<Rightarrow> nat" where
  "todo g fr vis = card ((cells g \<union> set fr) - vis)"

lemma todo_less:
  assumes "cur \<notin> vis" "cur \<in> set fr" "set fr' \<subseteq> set fr \<union> cells g"
  shows "todo g fr' (insert cur vis) < todo g fr vis"
  unfolding todo_def
proof (rule psubset_card_mono)
  show "finite ((cells g \<union> set fr) - vis)" by (simp add: cells_finite)
  show "(cells g \<union> set fr') - insert cur vis \<subset> (cells g \<union> set fr) - vis"
    using assms by auto
qed

lemma todo_le: "set fr' \<subseteq> set fr \<Longrightarrow> todo g fr' vis \<le> todo g fr vis"
  unfolding todo_def by (rule card_mono) (auto simp: cells_finite)

lemma todo_pop:
  "todo g queue vis < todo g (cur # queue) vis \<or> todo g queue vis = todo g (cur # queue) vis"
proof -
  have "todo g queue vis \<le> todo g (cur # queue) vis"
    by (rule todo_le) auto
  then show ?thesis by linarith
qed

lemma bfs_expand_todo:
  assumes "(q', y) = bfs_expand (insert cur vis) cur (get_neighbors g cur) (queue, iq, cf)"
    and "cur \<notin> vis"
  shows "todo g q' (insert cur vis) < todo g (cur # queue) vis"
proof -
  obtain iq' cf' where "bfs_expand (insert cur vis) cur (get_neighbors g cur) (queue, iq, cf) = (q', iq', cf')"
    using assms(1) by (metis prod.collapse)
  then have "set q' \<subseteq> set queue \<union> fst ` set (get_neighbors g cur)"
    by (rule bfs_expand_queue)
  then have "set q' \<subseteq> set (cur # queue) \<union> cells g"
    using get_neighbors_cells by fastforce
  with assms(2) show ?thesis by (intro todo_less) auto
qed

termination bfs_loop
proof (relation "inv_image (less_than <*lex*> less_than)
    (\<lambda>(g, queue, in_queue, came_from, vis, steps). (todo g queue vis, length queue))")
  show "wf (inv_image (less_than <*lex*> less_than)
    (\<lambda>(g, queue, in_queue, came_from, vis, steps). (todo g queue vis, length queue)))"
    by (intro wf_inv_image wf_lex_prod wf_less_than)
qed (auto simp: todo_pop bfs_expand_todo)

definition bfs :: "grid \<Rightarrow> result" where
  "bfs g = bfs_loop g [start g] {start g} [start g \<mapsto> None] {} []"

section \<open>Depth-first search\<close>

text \<open>
  A Python list used as a stack: \<open>pop()\<close> takes the last element, \<open>append\<close> adds at
  the end.  The neighbours are pushed in reversed clockwise order.
\<close>

fun dfs_push :: "pos set \<Rightarrow> pos \<Rightarrow> (pos \<times> cost) list \<Rightarrow> pos list \<times> parents \<Rightarrow> pos list \<times> parents" where
  "dfs_push vis cur [] (stack, came_from) = (stack, came_from)"
| "dfs_push vis cur ((nbr, w) # ns) (stack, came_from) =
     (if nbr \<notin> vis
      then dfs_push vis cur ns
             (stack @ [nbr], if came_from nbr = None then came_from(nbr \<mapsto> Some cur) else came_from)
      else dfs_push vis cur ns (stack, came_from))"

lemma dfs_push_stack:
  "dfs_push vis cur ns (s, cf) = (s', cf') \<Longrightarrow> set s' \<subseteq> set s \<union> fst ` set ns"
  by (induction ns arbitrary: s cf) (fastforce split: if_splits)+

function dfs_loop :: "grid \<Rightarrow> pos list \<Rightarrow> parents \<Rightarrow> pos set \<Rightarrow> step list \<Rightarrow> result" where
  "dfs_loop g stack came_from vis steps =
     (if stack = [] then Some (steps, [])
      else (let cur = last stack;
                stack1 = butlast stack;
                steps1 = steps @ [make_step cur stack1 vis]
            in if cur = goal g then map_option (Pair steps1) (reconstruct_path came_from cur)
               else if cur \<in> vis then dfs_loop g stack1 came_from vis steps1
               else (let vis1 = insert cur vis;
                         (stack2, came_from2) =
                            dfs_push vis1 cur (rev (get_neighbors g cur)) (stack1, came_from)
                     in dfs_loop g stack2 came_from2 vis1 steps1)))"
  by pat_completeness auto

lemma todo_butlast:
  "todo g (butlast stack) vis < todo g stack vis \<or> todo g (butlast stack) vis = todo g stack vis"
proof -
  have "todo g (butlast stack) vis \<le> todo g stack vis"
    by (rule todo_le) (auto dest: in_set_butlastD)
  then show ?thesis by linarith
qed

lemma dfs_push_todo:
  assumes "(s', cf') = dfs_push (insert (last stack) vis) (last stack) (rev (get_neighbors g (last stack))) (butlast stack, cf)"
    and "last stack \<notin> vis" and "stack \<noteq> []"
  shows "todo g s' (insert (last stack) vis) < todo g stack vis"
proof -
  have "set s' \<subseteq> set (butlast stack) \<union> fst ` set (rev (get_neighbors g (last stack)))"
    using assms(1) dfs_push_stack by metis
  then have "set s' \<subseteq> set stack \<union> cells g"
    using get_neighbors_cells by (fastforce dest: in_set_butlastD)
  with assms(2,3) show ?thesis by (intro todo_less) auto
qed

termination dfs_loop
  apply (relation "inv_image (less_than <*lex*> less_than)
    (\<lambda>(g, stack, came_from, vis, steps). (todo g stack vis, length stack))")
    apply (intro wf_inv_image wf_lex_prod wf_less_than)
   apply (simp add: todo_butlast)
  apply (simp, rule disjI1, erule dfs_push_todo, assumption+)
  done

declare dfs_loop.simps [simp del]

definition dfs :: "grid \<Rightarrow> result" where
  "dfs g = dfs_loop g [start g] [start g \<mapsto> None] {} []"




section \<open>Depth-limited search\<close>

lemma get_neighbors_fst_cells: "fst ` set (get_neighbors g p) \<subseteq> cells g"
  using get_neighbors_cells by fastforce

lemma butlast_fst_subset: "fst ` set (butlast xs) \<subseteq> fst ` set xs"
  by (auto dest: in_set_butlastD)


fun dls_push :: "pos set \<Rightarrow> pos \<Rightarrow> int \<Rightarrow> (pos \<times> cost) list \<Rightarrow> (pos \<times> int) list \<times> parents
    \<Rightarrow> (pos \<times> int) list \<times> parents" where
  "dls_push vis cur depth [] (stack, came_from) = (stack, came_from)"
| "dls_push vis cur depth ((nbr, w) # ns) (stack, came_from) =
     (if nbr \<notin> vis
      then dls_push vis cur depth ns
             (stack @ [(nbr, depth + 1)],
              if came_from nbr = None then came_from(nbr \<mapsto> Some cur) else came_from)
      else dls_push vis cur depth ns (stack, came_from))"

lemma dls_push_stack:
  "fst ` set (fst (dls_push vis cur d ns st)) \<subseteq> fst ` set (fst st) \<union> fst ` set ns"
proof (induction vis cur d ns st rule: dls_push.induct)
  case (1 vis cur depth stack came_from)
  show ?case by simp
next
  case (2 vis cur depth nbr w ns stack came_from)
  show ?case
  proof (cases "nbr \<in> vis")
    case True
    with 2 show ?thesis by auto
  next
    case False
    with 2(1) have "fst ` set (fst (dls_push vis cur depth ((nbr, w) # ns) (stack, came_from)))
        \<subseteq> fst ` set (stack @ [(nbr, depth + 1)]) \<union> fst ` set ns"
      by simp
    also have "\<dots> \<subseteq> fst ` set stack \<union> fst ` set ((nbr, w) # ns)" by auto
    finally show ?thesis by simp
  qed
qed

function dls_loop :: "grid \<Rightarrow> int \<Rightarrow> (pos \<times> int) list \<Rightarrow> parents \<Rightarrow> pos set \<Rightarrow> step list \<Rightarrow> result" where
  "dls_loop g limit stack came_from vis steps =
     (if stack = [] then Some (steps, [])
      else (let cur = fst (last stack);
                depth = snd (last stack);
                stack1 = butlast stack;
                steps1 = steps @ [make_step cur (map fst stack1) vis]
            in if cur = goal g then map_option (Pair steps1) (reconstruct_path came_from cur)
               else if cur \<in> vis \<or> depth \<ge> limit then dls_loop g limit stack1 came_from vis steps1
               else (let vis1 = insert cur vis;
                         (stack2, came_from2) =
                            dls_push vis1 cur depth (rev (get_neighbors g cur)) (stack1, came_from)
                     in dls_loop g limit stack2 came_from2 vis1 steps1)))"
  by pat_completeness auto

lemma dls_push_todo:
  assumes "(s', cf') = dls_push (insert (fst (last stack)) vis) (fst (last stack)) d
      (rev (get_neighbors g (fst (last stack)))) (butlast stack, cf)"
    and "fst (last stack) \<notin> vis" and "stack \<noteq> []"
  shows "todo g (map fst s') (insert (fst (last stack)) vis) < todo g (map fst stack) vis"
proof -
  have "s' = fst (dls_push (insert (fst (last stack)) vis) (fst (last stack)) d
      (rev (get_neighbors g (fst (last stack)))) (butlast stack, cf))"
    using assms(1) by (metis fst_conv)
  then have "fst ` set s' \<subseteq> fst ` set (butlast stack) \<union> fst ` set (rev (get_neighbors g (fst (last stack))))"
    using dls_push_stack [of "insert (fst (last stack)) vis" "fst (last stack)" d
        "rev (get_neighbors g (fst (last stack)))" "(butlast stack, cf)"] by simp
  then have "set (map fst s') \<subseteq> set (map fst stack) \<union> cells g"
    using get_neighbors_fst_cells [of g "fst (last stack)"] butlast_fst_subset [of stack]
    unfolding set_map set_rev by blast
  moreover have "fst (last stack) \<in> set (map fst stack)"
    using assms(3) by simp
  ultimately show ?thesis using assms(2) by (intro todo_less) auto
qed

lemma dls_decrease:
  assumes "stack \<noteq> []" "x = fst (last stack)" "xb = butlast stack"
    and "\<not> (x \<in> vis \<or> limit \<le> xa)" "xd = insert x vis"
    and "xe = dls_push xd x xa (rev (get_neighbors g x)) (xb, came_from)" "(xf, y) = xe"
  shows "((g, limit, xf, y, xd, xc), g, limit, stack, came_from, vis, steps)
           \<in> inv_image (less_than <*lex*> less_than)
              (\<lambda>(g, limit, stack, came_from, vis, steps).
                  (todo g (map fst stack) vis, length stack))"
proof -
  have "(xf, y) = dls_push (insert (fst (last stack)) vis) (fst (last stack)) xa
      (rev (get_neighbors g (fst (last stack)))) (butlast stack, came_from)"
    using assms by simp
  moreover have "fst (last stack) \<notin> vis" using assms by simp
  ultimately have "todo g (map fst xf) (insert (fst (last stack)) vis) < todo g (map fst stack) vis"
    using assms(1) by (rule dls_push_todo)
  then have "todo g (map fst xf) xd < todo g (map fst stack) vis"
    unfolding assms(2) assms(5) .
  then show ?thesis
    unfolding in_inv_image in_lex_prod prod.case less_than_iff by (rule disjI1)
qed

termination dls_loop
  apply (relation "inv_image (less_than <*lex*> less_than)
    (\<lambda>(g, limit, stack, came_from, vis, steps). (todo g (map fst stack) vis, length stack))")
    apply (intro wf_inv_image wf_lex_prod wf_less_than)
   apply (simp add: map_butlast todo_butlast)
  apply (rule dls_decrease; assumption)
  done

declare dls_loop.simps [simp del]

definition dls :: "grid \<Rightarrow> int \<Rightarrow> result" where
  "dls g limit = dls_loop g limit [(start g, 0)] [start g \<mapsto> None] {} []"

section \<open>Iterative deepening\<close>

fun iddfs_loop :: "grid \<Rightarrow> int list \<Rightarrow> step list \<Rightarrow> result" where
  "iddfs_loop g [] all_steps = Some (all_steps, [])"
| "iddfs_loop g (depth_limit # ls) all_steps =
     (case dls g depth_limit of
        None \<Rightarrow> None
      | Some (steps, path) \<Rightarrow>
          (let all_steps1 = all_steps @ steps
           in if path \<noteq> [] then Some (all_steps1, path) else iddfs_loop g ls all_steps1))"

definition iddfs :: "grid \<Rightarrow> result" where
  "iddfs g = iddfs_loop g [0 .. ROWS * COLS - 1] []"

section \<open>Bidirectional search\<close>

text \<open>The two \<open>while node is not None\<close> loops of \<open>merge_paths\<close>.\<close>

partial_function (option) merge_loop :: "parents \<Rightarrow> pos option \<Rightarrow> pos list \<Rightarrow> pos list option" where
  "merge_loop parent node path =
     (case node of
        None \<Rightarrow> Some path
      | Some n \<Rightarrow> merge_loop parent (dict_get parent n) (path @ [n]))"

declare merge_loop.simps [code]

definition merge_paths :: "parents \<Rightarrow> parents \<Rightarrow> pos \<Rightarrow> pos list option" where
  "merge_paths fwd_parent bwd_parent meeting =
     (case merge_loop fwd_parent (Some meeting) [] of
        None \<Rightarrow> None
      | Some path_fwd \<Rightarrow>
          (case merge_loop bwd_parent (dict_get bwd_parent meeting) [] of
             None \<Rightarrow> None
           | Some path_bwd \<Rightarrow> Some (rev path_fwd @ path_bwd)))"

fun bidir_expand :: "pos \<Rightarrow> (pos \<times> cost) list \<Rightarrow> pos list \<times> pos set \<times> parents
    \<Rightarrow> pos list \<times> pos set \<times> parents" where
  "bidir_expand cur [] (queue, vis, parent) = (queue, vis, parent)"
| "bidir_expand cur ((nbr, w) # ns) (queue, vis, parent) =
     (if nbr \<notin> vis
      then bidir_expand cur ns (queue @ [nbr], insert nbr vis, parent(nbr \<mapsto> Some cur))
      else bidir_expand cur ns (queue, vis, parent))"

text \<open>
  One half of an iteration of the outer loop: pop from the own queue, record the step,
  test the other side's visited set (\<open>Inl\<close>: return with the meeting cell), otherwise
  expand (\<open>Inr\<close>: continue).
\<close>

definition fwd_half :: "grid \<Rightarrow> pos list \<Rightarrow> pos set \<Rightarrow> parents \<Rightarrow> pos list \<Rightarrow> pos set \<Rightarrow> step list
    \<Rightarrow> (step list \<times> pos) + (pos list \<times> pos set \<times> parents \<times> step list)" where
  "fwd_half g fwd_queue fwd_visited fwd_parent bwd_queue bwd_visited steps =
     (let cur_f = hd fwd_queue;
          fwd_queue1 = tl fwd_queue;
          steps1 = steps @ [make_step cur_f (fwd_queue1 @ bwd_queue) (fwd_visited \<union> bwd_visited)]
      in if cur_f \<in> bwd_visited then Inl (steps1, cur_f)
         else (case bidir_expand cur_f (get_neighbors g cur_f) (fwd_queue1, fwd_visited, fwd_parent) of
                 (fwd_queue2, fwd_visited2, fwd_parent2) \<Rightarrow>
                   Inr (fwd_queue2, fwd_visited2, fwd_parent2, steps1)))"

definition bwd_half :: "grid \<Rightarrow> pos list \<Rightarrow> pos set \<Rightarrow> pos list \<Rightarrow> pos set \<Rightarrow> parents \<Rightarrow> step list
    \<Rightarrow> (step list \<times> pos) + (pos list \<times> pos set \<times> parents \<times> step list)" where
  "bwd_half g fwd_queue fwd_visited bwd_queue bwd_visited bwd_parent steps =
     (let cur_b = hd bwd_queue;
          bwd_queue1 = tl bwd_queue;
          steps1 = steps @ [make_step cur_b (fwd_queue @ bwd_queue1) (fwd_visited \<union> bwd_visited)]
      in if cur_b \<in> fwd_visited then Inl (steps1, cur_b)
         else (case bidir_expand cur_b (get_neighbors g cur_b) (bwd_queue1, bwd_visited, bwd_parent) of
                 (bwd_queue2, bwd_visited2, bwd_parent2) \<Rightarrow>
                   Inr (bwd_queue2, bwd_visited2, bwd_parent2, steps1)))"

lemma bidir_expand_measure:
  "fst ` set ns \<subseteq> cells g \<Longrightarrow> bidir_expand cur ns (q, v, p) = (q', v', p')
    \<Longrightarrow> card (cells g - v') + length q' = card (cells g - v) + length q"
proof (induction ns arbitrary: q v p)
  case Nil
  then show ?case by simp
next
  case (Cons a ns)
  obtain nbr w where a: "a = (nbr, w)" by (cases a)
  show ?case
  proof (cases "nbr \<in> v")
    case True
    with Cons a show ?thesis by simp
  next
    case False
    have in_cells: "nbr \<in> cells g" using Cons.prems(1) a by auto
    have "bidir_expand cur ns (q @ [nbr], insert nbr v, p(nbr \<mapsto> Some cur)) = (q', v', p')"
      using Cons.prems(2) a False by simp
    moreover have "fst ` set ns \<subseteq> cells g" using Cons.prems(1) by simp
    ultimately have "card (cells g - v') + length q' = card (cells g - insert nbr v) + length (q @ [nbr])"
      by (rule Cons.IH [rotated])
    moreover have "card (cells g - insert nbr v) = card (cells g - v) - 1"
      using in_cells False cells_finite [of g]
      by (metis Diff_iff Diff_insert card_Diff_singleton)
    moreover have "card (cells g - v) > 0"
      using in_cells False cells_finite [of g] by (metis DiffI card_gt_0_iff empty_iff finite_Diff)
    ultimately show ?thesis by simp
  qed
qed

definition bidir_size :: "grid \<Rightarrow> pos list \<Rightarrow> pos set \<Rightarrow> nat" where
  "bidir_size g q v = card (cells g - v) + length q"

lemma fwd_half_size:
  assumes "fwd_half g fq fv fp bq bv steps = Inr (fq2, fv2, fp2, steps1)" and "fq \<noteq> []"
  shows "bidir_size g fq2 fv2 < bidir_size g fq fv"
proof -
  have "bidir_expand (hd fq) (get_neighbors g (hd fq)) (tl fq, fv, fp) = (fq2, fv2, fp2)"
    using assms(1) by (auto simp: fwd_half_def Let_def split: if_splits prod.splits)
  then have "card (cells g - fv2) + length fq2 = card (cells g - fv) + length (tl fq)"
    using bidir_expand_measure get_neighbors_fst_cells by blast
  then show ?thesis using assms(2) by (simp add: bidir_size_def)
qed

lemma bwd_half_size:
  assumes "bwd_half g fq fv bq bv bp steps = Inr (bq2, bv2, bp2, steps1)" and "bq \<noteq> []"
  shows "bidir_size g bq2 bv2 < bidir_size g bq bv"
proof -
  have "bidir_expand (hd bq) (get_neighbors g (hd bq)) (tl bq, bv, bp) = (bq2, bv2, bp2)"
    using assms(1) by (auto simp: bwd_half_def Let_def split: if_splits prod.splits)
  then have "card (cells g - bv2) + length bq2 = card (cells g - bv) + length (tl bq)"
    using bidir_expand_measure get_neighbors_fst_cells by blast
  then show ?thesis using assms(2) by (simp add: bidir_size_def)
qed

function bidirectional_loop :: "grid \<Rightarrow> pos list \<Rightarrow> pos set \<Rightarrow> parents \<Rightarrow> pos list \<Rightarrow> pos set \<Rightarrow> parents
    \<Rightarrow> step list \<Rightarrow> result" where
  "bidirectional_loop g fwd_queue fwd_visited fwd_parent bwd_queue bwd_visited bwd_parent steps =
     (if fwd_queue = [] \<and> bwd_queue = [] then Some (steps, [])
      else (case (if fwd_queue \<noteq> []
                  then fwd_half g fwd_queue fwd_visited fwd_parent bwd_queue bwd_visited steps
                  else Inr (fwd_queue, fwd_visited, fwd_parent, steps)) of
              Inl (steps1, cur_f) \<Rightarrow> map_option (Pair steps1) (merge_paths fwd_parent bwd_parent cur_f)
            | Inr (fwd_queue2, fwd_visited2, fwd_parent2, steps1) \<Rightarrow>
                (if bwd_queue \<noteq> []
                 then (case bwd_half g fwd_queue2 fwd_visited2 bwd_queue bwd_visited bwd_parent steps1 of
                         Inl (steps2, cur_b) \<Rightarrow>
                           map_option (Pair steps2) (merge_paths fwd_parent2 bwd_parent cur_b)
                       | Inr (bwd_queue2, bwd_visited2, bwd_parent2, steps2) \<Rightarrow>
                           bidirectional_loop g fwd_queue2 fwd_visited2 fwd_parent2
                             bwd_queue2 bwd_visited2 bwd_parent2 steps2)
                 else bidirectional_loop g fwd_queue2 fwd_visited2 fwd_parent2
                        bwd_queue bwd_visited bwd_parent steps1)))"
  by pat_completeness auto

lemma fwd_part_size:
  assumes "(if fq \<noteq> [] then fwd_half g fq fv fp bq bv steps else Inr (fq, fv, fp, steps))
      = Inr (fq2, fv2, fp2, steps1)"
  shows "bidir_size g fq2 fv2 \<le> bidir_size g fq fv"
proof (cases "fq = []")
  case True
  with assms show ?thesis by simp
next
  case False
  with assms have "bidir_size g fq2 fv2 < bidir_size g fq fv"
    by (simp add: fwd_half_size)
  then show ?thesis by simp
qed

termination bidirectional_loop
proof (relation "measure (\<lambda>(g, fq, fv, fp, bq, bv, bp, steps). bidir_size g fq fv + bidir_size g bq bv)",
    goal_cases)
  case 1
  show ?case by simp
next
  case (2 g fq fv fp bq bv bp steps b x y xa ya xb yb ba xc yc xd yd xe ye)
  have b: "b = (x, xa, xb, yb)"
    using 2(3,4,5) by auto
  have ba: "ba = (xc, xd, xe, ye)"
    using 2(8,9,10) by auto
  have "bidir_size g x xa \<le> bidir_size g fq fv"
    using 2(2) unfolding b by (rule fwd_part_size)
  moreover have "bidir_size g xc xd < bidir_size g bq bv"
    using 2(7) 2(6) unfolding ba by (rule bwd_half_size)
  ultimately show ?case unfolding ba by simp
next
  case (3 g fq fv fp bq bv bp steps b x y xa ya xb yb)
  have b: "b = (x, xa, xb, yb)"
    using 3(3,4,5) by auto
  have "fq \<noteq> []" using 3(1) 3(6) by simp
  then have "fwd_half g fq fv fp bq bv steps = Inr (x, xa, xb, yb)"
    using 3(2) unfolding b by simp
  then have "bidir_size g x xa < bidir_size g fq fv"
    using \<open>fq \<noteq> []\<close> by (rule fwd_half_size)
  then show ?case by simp
qed

declare bidirectional_loop.simps [simp del]

definition bidirectional :: "grid \<Rightarrow> result" where
  "bidirectional g =
     bidirectional_loop g [start g] {start g} [start g \<mapsto> None] [goal g] {goal g} [goal g \<mapsto> None] []"


section \<open>Binary heap of the standard library\<close>

text \<open>
  \<open>heapq\<close> keeps a list as an implicit binary heap: the children of index \<open>k\<close> are
  \<open>2k+1\<close> and \<open>2k+2\<close>.  The functions below follow \<open>Lib/heapq.py\<close>
  (\<open>_siftdown\<close>, \<open>_siftup\<close>, \<open>heappush\<close>, \<open>heappop\<close>).
\<close>

function siftdown_loop :: "'a::linorder list \<Rightarrow> nat \<Rightarrow> 'a \<Rightarrow> nat \<Rightarrow> 'a list" where
  "siftdown_loop heap startpos newitem pos =
     (if pos > startpos
      then (let parentpos = (pos - 1) div 2;
                parent = heap ! parentpos
            in if newitem < parent
               then siftdown_loop (heap[pos := parent]) startpos newitem parentpos
               else heap[pos := newitem])
      else heap[pos := newitem])"
  by pat_completeness auto
termination
  by (relation "measure (\<lambda>(heap, startpos, newitem, pos). pos)") auto

declare siftdown_loop.simps [simp del]

definition siftdown :: "'a::linorder list \<Rightarrow> nat \<Rightarrow> nat \<Rightarrow> 'a list" where
  "siftdown heap startpos pos = siftdown_loop heap startpos (heap ! pos) pos"

function siftup_loop :: "'a::linorder list \<Rightarrow> nat \<Rightarrow> nat \<Rightarrow> nat \<Rightarrow> 'a list \<times> nat" where
  "siftup_loop heap endpos pos childpos =
     (if childpos < endpos
      then (let rightpos = childpos + 1;
                childpos1 = (if rightpos < endpos \<and> \<not> heap ! childpos < heap ! rightpos
                             then rightpos else childpos)
            in siftup_loop (heap[pos := heap ! childpos1]) endpos childpos1 (2 * childpos1 + 1))
      else (heap, pos))"
  by pat_completeness auto
termination
  by (relation "measure (\<lambda>(heap, endpos, pos, childpos). endpos - childpos)") auto

declare siftup_loop.simps [simp del]

definition siftup :: "'a::linorder list \<Rightarrow> nat \<Rightarrow> 'a list" where
  "siftup heap pos =
     (let endpos = length heap;
          startpos = pos;
          newitem = heap ! pos
      in case siftup_loop heap endpos pos (2 * pos + 1) of
           (heap1, pos1) \<Rightarrow> siftdown (heap1[pos1 := newitem]) startpos pos1)"

definition heappush :: "'a::linorder list \<Rightarrow> 'a \<Rightarrow> 'a list" where
  "heappush heap item = siftdown (heap @ [item]) 0 (length heap)"

text \<open>\<open>heappop\<close> raises \<open>IndexError\<close> on an empty heap: the result \<open>None\<close>.\<close>

definition heappop :: "'a::linorder list \<Rightarrow> ('a \<times> 'a list) option" where
  "heappop heap =
     (if heap = [] then None
      else (let lastelt = last heap;
                heap1 = butlast heap
            in if heap1 \<noteq> []
               then (let returnitem = heap1 ! 0
                     in Some (returnitem, siftup (heap1[0 := lastelt]) 0))
               else Some (lastelt, heap1)))"



lemma mset_update_swap:
  assumes "i < length xs" "j < length xs" "i \<noteq> j"
  shows "mset (xs[i := xs ! j, j := v]) = mset (xs[i := v])"
proof -
  let ?ys = "xs[i := v]"
  have "?ys[i := ?ys ! j, j := ?ys ! i] = xs[i := xs ! j, j := v]"
    using assms by simp
  moreover have "mset (?ys[i := ?ys ! j, j := ?ys ! i]) = mset ?ys"
    using assms by (intro mset_swap) simp_all
  ultimately show ?thesis by simp
qed

lemma siftdown_loop_mset:
  "pos < length heap \<Longrightarrow> mset (siftdown_loop heap startpos newitem pos) = mset (heap[pos := newitem])"
proof (induction heap startpos newitem pos rule: siftdown_loop.induct)
  case (1 heap startpos newitem pos)
  show ?case
  proof (cases "pos > startpos \<and> newitem < heap ! ((pos - 1) div 2)")
    case True
    let ?pp = "(pos - 1) div 2"
    have pp: "?pp < pos" using True by auto
    have "mset (siftdown_loop heap startpos newitem pos)
        = mset (siftdown_loop (heap[pos := heap ! ?pp]) startpos newitem ?pp)"
      using True by (subst siftdown_loop.simps) (simp add: Let_def)
    also have "\<dots> = mset (heap[pos := heap ! ?pp, ?pp := newitem])"
      using True pp "1.prems" by (intro "1.IH") auto
    also have "\<dots> = mset (heap[pos := newitem])"
      using pp "1.prems" by (intro mset_update_swap) auto
    finally show ?thesis .
  next
    case False
    then show ?thesis by (subst siftdown_loop.simps) (auto simp: Let_def)
  qed
qed

lemma siftdown_mset: "pos < length heap \<Longrightarrow> mset (siftdown heap startpos pos) = mset heap"
  by (simp add: siftdown_def siftdown_loop_mset)

lemma siftup_loop_mset:
  "siftup_loop heap endpos pos childpos = (h', p') \<Longrightarrow> pos < childpos \<Longrightarrow> endpos \<le> length heap
    \<Longrightarrow> pos < length heap
    \<Longrightarrow> p' < length heap \<and> length h' = length heap \<and> mset (h'[p' := x]) = mset (heap[pos := x])"
proof (induction heap endpos pos childpos arbitrary: h' p' rule: siftup_loop.induct)
  case (1 heap endpos pos childpos)
  show ?case
  proof (cases "childpos < endpos")
    case True
    define c1 where "c1 = (if childpos + 1 < endpos \<and> \<not> heap ! childpos < heap ! (childpos + 1)
                           then childpos + 1 else childpos)"
    have c1: "c1 < endpos" "pos < c1" using True "1.prems"(2) by (auto simp: c1_def)
    have rec: "siftup_loop (heap[pos := heap ! c1]) endpos c1 (2 * c1 + 1) = (h', p')"
      unfolding c1_def using "1.prems"(1) True
      by (subst (asm) siftup_loop.simps) (auto simp: Let_def split: if_splits)
    have "p' < length (heap[pos := heap ! c1]) \<and> length h' = length (heap[pos := heap ! c1])
        \<and> mset (h'[p' := x]) = mset (heap[pos := heap ! c1, c1 := x])"
      using c1 "1.prems" by (intro "1.IH" [OF True refl c1_def rec]) auto
    moreover have "mset (heap[pos := heap ! c1, c1 := x]) = mset (heap[pos := x])"
      using c1 "1.prems" by (intro mset_update_swap) auto
    ultimately show ?thesis by simp
  next
    case False
    then have "h' = heap" "p' = pos"
      using "1.prems"(1) by (subst (asm) siftup_loop.simps; simp)+
    then show ?thesis using "1.prems" by simp
  qed
qed

lemma siftup_mset:
  assumes "pos < length heap"
  shows "mset (siftup heap pos) = mset heap"
proof -
  obtain h' p' where loop: "siftup_loop heap (length heap) pos (2 * pos + 1) = (h', p')"
    by (cases "siftup_loop heap (length heap) pos (2 * pos + 1)")
  have *: "p' < length heap \<and> length h' = length heap
      \<and> mset (h'[p' := heap ! pos]) = mset (heap[pos := heap ! pos])"
    using siftup_loop_mset [OF loop, of "heap ! pos"] assms by simp
  have "siftup heap pos = siftdown (h'[p' := heap ! pos]) pos p'"
    using loop by (simp add: siftup_def Let_def)
  then show ?thesis using * by (simp add: siftdown_mset)
qed

lemma heappush_mset: "mset (heappush heap item) = add_mset item (mset heap)"
  by (simp add: heappush_def siftdown_mset)

lemma heappop_Nil: "heappop [] = None"
  by (simp add: heappop_def)

lemma heappop_single: "heap \<noteq> [] \<Longrightarrow> butlast heap = [] \<Longrightarrow> heappop heap = Some (last heap, [])"
  by (simp add: heappop_def Let_def)

lemma heappop_many:
  "butlast heap \<noteq> [] \<Longrightarrow>
    heappop heap = Some (butlast heap ! 0, siftup ((butlast heap)[0 := last heap]) 0)"
  by (cases "heap = []") (simp_all add: heappop_def Let_def)

lemma heappop_mset:
  assumes "heappop heap = Some (x, heap')"
  shows "mset heap = add_mset x (mset heap')"
proof -
  have ne: "heap \<noteq> []" using assms by (auto simp: heappop_Nil)
  show ?thesis
  proof (cases "butlast heap = []")
    case True
    then have "x = last heap" "heap' = []"
      using assms heappop_single [OF ne True] by simp_all
    moreover have "heap = [last heap]"
      using ne True by (metis append_butlast_last_id append_Nil)
    ultimately show ?thesis by (metis mset.simps(1) mset.simps(2))
  next
    case False
    let ?h1 = "butlast heap"
    have x: "x = ?h1 ! 0" and h': "heap' = siftup (?h1[0 := last heap]) 0"
      using assms heappop_many [OF False] by simp_all
    have len: "0 < length ?h1" using False by (cases "butlast heap") simp_all
    have "mset heap' = mset (?h1[0 := last heap])"
      unfolding h' using len by (intro siftup_mset) simp
    also have "\<dots> = add_mset (last heap) (mset ?h1 - {#?h1 ! 0#})"
      using len by (simp add: mset_update)
    finally have "add_mset x (mset heap') = add_mset (last heap) (mset ?h1)"
      using len x by simp
    also have "\<dots> = mset (?h1 @ [last heap])" by simp
    also have "\<dots> = mset heap" using ne by simp
    finally show ?thesis by simp
  qed
qed

lemma heappop_nonempty: "heap \<noteq> [] \<Longrightarrow> \<exists>x heap'. heappop heap = Some (x, heap')"
  by (auto simp: heappop_def Let_def)


section \<open>Uniform-cost search\<close>

text \<open>A heap entry is the tuple \<open>(cost, counter, position)\<close>, compared lexicographically.\<close>

type_synonym entry = "cost \<times> nat \<times> pos"

fun ucs_relax :: "cost \<Rightarrow> pos \<Rightarrow> (pos \<times> cost) list
    \<Rightarrow> entry list \<times> parents \<times> (pos \<rightharpoonup> cost) \<times> nat
    \<Rightarrow> entry list \<times> parents \<times> (pos \<rightharpoonup> cost) \<times> nat" where
  "ucs_relax cur_cost cur [] (heap, came_from, cost_so_far, counter) =
     (heap, came_from, cost_so_far, counter)"
| "ucs_relax cur_cost cur ((nbr, edge_cost) # ns) (heap, came_from, cost_so_far, counter) =
     (let new_cost = fadd cur_cost edge_cost
      in if (case cost_so_far nbr of None \<Rightarrow> True | Some c \<Rightarrow> new_cost < c)
         then ucs_relax cur_cost cur ns
                (heappush heap (new_cost, counter + 1, nbr), came_from(nbr \<mapsto> Some cur),
                 cost_so_far(nbr \<mapsto> new_cost), counter + 1)
         else ucs_relax cur_cost cur ns (heap, came_from, cost_so_far, counter))"

definition entry_pos :: "entry \<Rightarrow> pos" where
  "entry_pos i = snd (snd i)"

lemma ucs_relax_heap:
  "entry_pos ` set (fst (ucs_relax cur_cost cur ns st)) \<subseteq> entry_pos ` set (fst st) \<union> fst ` set ns"
proof (induction cur_cost cur ns st rule: ucs_relax.induct)
  case (1 cur_cost cur heap came_from cost_so_far counter)
  show ?case by simp
next
  case (2 cur_cost cur nbr edge_cost ns heap came_from cost_so_far counter)
  let ?new = "fadd cur_cost edge_cost"
  show ?case
  proof (cases "case cost_so_far nbr of None \<Rightarrow> True | Some c \<Rightarrow> ?new < c")
    case True
    have "set (heappush heap (?new, counter + 1, nbr)) = insert (?new, counter + 1, nbr) (set heap)"
      using heappush_mset [of heap "(?new, counter + 1, nbr)"] by (metis set_mset_add_mset_insert set_mset_mset)
    then have "entry_pos ` set (heappush heap (?new, counter + 1, nbr)) = insert nbr (entry_pos ` set heap)"
      by (simp add: entry_pos_def)
    with 2(1) [OF refl True] True show ?thesis by (auto simp: Let_def)
  next
    case False
    with 2(2) [OF refl False] show ?thesis by (auto simp: Let_def)
  qed
qed

function ucs_loop :: "grid \<Rightarrow> entry list \<Rightarrow> parents \<Rightarrow> (pos \<rightharpoonup> cost) \<Rightarrow> nat \<Rightarrow> pos set \<Rightarrow> step list
    \<Rightarrow> result" where
  "ucs_loop g heap came_from cost_so_far counter vis steps =
     (if heap = [] then Some (steps, [])
      else (case heappop heap of
              None \<Rightarrow> None
            | Some ((cur_cost, c, cur), heap1) \<Rightarrow>
                (let steps1 = steps @ [make_step cur (map entry_pos heap1) vis]
                 in if cur = goal g then map_option (Pair steps1) (reconstruct_path came_from cur)
                    else if cur \<in> vis then ucs_loop g heap1 came_from cost_so_far counter vis steps1
                    else (let vis1 = insert cur vis
                          in case ucs_relax cur_cost cur (get_neighbors g cur)
                                    (heap1, came_from, cost_so_far, counter) of
                               (heap2, came_from2, cost_so_far2, counter2) \<Rightarrow>
                                 ucs_loop g heap2 came_from2 cost_so_far2 counter2 vis1 steps1))))"
  by pat_completeness auto

lemma heappop_entries:
  assumes "heappop heap = Some (x, heap1)"
  shows "set heap = insert x (set heap1)" and "length heap = Suc (length heap1)"
proof -
  have m: "mset heap = add_mset x (mset heap1)"
    using assms by (rule heappop_mset)
  show "set heap = insert x (set heap1)"
    using m by (metis set_mset_add_mset_insert set_mset_mset)
  show "length heap = Suc (length heap1)"
    using m by (metis size_add_mset size_mset)
qed

lemma ucs_pop_todo:
  assumes "heappop heap = Some (x, heap1)"
  shows "todo g (map entry_pos heap1) vis < todo g (map entry_pos heap) vis
    \<or> todo g (map entry_pos heap1) vis = todo g (map entry_pos heap) vis \<and> length heap1 < length heap"
proof -
  have "set (map entry_pos heap1) \<subseteq> set (map entry_pos heap)"
    using heappop_entries(1) [OF assms] by auto
  then have "todo g (map entry_pos heap1) vis \<le> todo g (map entry_pos heap) vis"
    by (rule todo_le)
  moreover have "length heap1 < length heap"
    using heappop_entries(2) [OF assms] by simp
  ultimately show ?thesis by linarith
qed

lemma ucs_relax_todo:
  assumes "heappop heap = Some ((cur_cost, c, cur), heap1)" and "cur \<notin> vis"
    and "(heap2, rest) = ucs_relax cur_cost cur (get_neighbors g cur) (heap1, came_from, cost_so_far, counter)"
  shows "todo g (map entry_pos heap2) (insert cur vis) < todo g (map entry_pos heap) vis"
proof -
  have heap2: "heap2 = fst (ucs_relax cur_cost cur (get_neighbors g cur) (heap1, came_from, cost_so_far, counter))"
    using assms(3) by (metis fst_conv)
  have "entry_pos ` set heap2 \<subseteq> entry_pos ` set heap1 \<union> fst ` set (get_neighbors g cur)"
    unfolding heap2
    using ucs_relax_heap [of cur_cost cur "get_neighbors g cur" "(heap1, came_from, cost_so_far, counter)"]
    by simp
  moreover have "entry_pos ` set heap1 \<subseteq> entry_pos ` set heap"
    using heappop_entries(1) [OF assms(1)] by auto
  ultimately have "set (map entry_pos heap2) \<subseteq> set (map entry_pos heap) \<union> cells g"
    using get_neighbors_fst_cells [of g cur] unfolding set_map by blast
  moreover have "cur \<in> set (map entry_pos heap)"
    using heappop_entries(1) [OF assms(1)] by (force simp: entry_pos_def)
  ultimately show ?thesis using assms(2) by (intro todo_less) auto
qed

termination ucs_loop
proof (relation "inv_image (less_than <*lex*> less_than)
    (\<lambda>(g, heap, came_from, cost_so_far, counter, vis, steps). (todo g (map entry_pos heap) vis, length heap))",
    goal_cases)
  case 1
  show ?case by (intro wf_inv_image wf_lex_prod wf_less_than)
next
  case (2 g heap came_from cost_so_far counter vis steps x2 x y xa ya xb yb xc)
  have "heappop heap = Some (x, y)" using 2(2) 2(3) by simp
  from ucs_pop_todo [OF this] show ?case by simp
next
  case (3 g heap came_from cost_so_far counter vis steps x2 x y xa ya xb yb xc xd xe yaa xf yc xg yd)
  have "heappop heap = Some ((xa, xb, yb), y)" using 3(2,3,4,5) by simp
  moreover have "yb \<notin> vis" using 3(8) .
  moreover have "(xe, yaa) = ucs_relax xa yb (get_neighbors g yb) (y, came_from, cost_so_far, counter)"
    using 3(10) .
  ultimately have "todo g (map entry_pos xe) (insert yb vis) < todo g (map entry_pos heap) vis"
    by (rule ucs_relax_todo)
  then show ?case using 3(9) by simp
qed

declare ucs_loop.simps [simp del]

definition ucs :: "grid \<Rightarrow> result" where
  "ucs g = ucs_loop g [(0, 0, start g)] [start g \<mapsto> None] [start g \<mapsto> 0] 0 {} []"


section \<open>Proof rules for the loops\<close>

text \<open>
  Each loop gets one rule in the style of a while rule: an invariant \<open>I\<close> over the
  loop variables that every iteration preserves, and a postcondition \<open>Q\<close> that
  every exit establishes.
\<close>

lemma bfs_expand_rule:
  assumes "P (q, iq, cf)"
    and "\<And>nbr w q iq cf. P (q, iq, cf) \<Longrightarrow> (nbr, w) \<in> set ns \<Longrightarrow> nbr \<notin> vis \<Longrightarrow> nbr \<notin> iq
      \<Longrightarrow> P (q @ [nbr], insert nbr iq, cf(nbr \<mapsto> Some cur))"
  shows "P (bfs_expand vis cur ns (q, iq, cf))"
  using assms
proof (induction ns arbitrary: q iq cf)
  case Nil
  then show ?case by simp
next
  case (Cons a ns)
  obtain nbr w where a: "a = (nbr, w)" by (cases a)
  have step: "\<And>nbr w q iq cf. P (q, iq, cf) \<Longrightarrow> (nbr, w) \<in> set ns \<Longrightarrow> nbr \<notin> vis \<Longrightarrow> nbr \<notin> iq
      \<Longrightarrow> P (q @ [nbr], insert nbr iq, cf(nbr \<mapsto> Some cur))"
    using Cons.prems(2) by (meson list.set_intros(2))
  show ?case
  proof (cases "nbr \<notin> vis \<and> nbr \<notin> iq")
    case True
    have "(nbr, w) \<in> set (a # ns)" using a by simp
    with Cons.prems(1) True have "P (q @ [nbr], insert nbr iq, cf(nbr \<mapsto> Some cur))"
      by (intro Cons.prems(2)) simp_all
    then have "P (bfs_expand vis cur ns (q @ [nbr], insert nbr iq, cf(nbr \<mapsto> Some cur)))"
      using step by (rule Cons.IH)
    then show ?thesis using True a by simp
  next
    case False
    have "P (bfs_expand vis cur ns (q, iq, cf))"
      using Cons.prems(1) step by (rule Cons.IH)
    then show ?thesis using False a by auto
  qed
qed

lemma bfs_loop_rule:
  assumes "I queue in_queue came_from vis steps"
    and "\<And>iq cf vis steps. I [] iq cf vis steps \<Longrightarrow> Q (Some (steps, []))"
    and "\<And>cur q iq cf vis steps. I (cur # q) iq cf vis steps \<Longrightarrow> cur = goal g
      \<Longrightarrow> Q (map_option (Pair (steps @ [make_step cur q vis])) (reconstruct_path cf cur))"
    and "\<And>cur q iq cf vis steps. I (cur # q) iq cf vis steps \<Longrightarrow> cur \<noteq> goal g \<Longrightarrow> cur \<in> vis
      \<Longrightarrow> I q (iq - {cur}) cf vis (steps @ [make_step cur q vis])"
    and "\<And>cur q iq cf vis steps q2 iq2 cf2. I (cur # q) iq cf vis steps \<Longrightarrow> cur \<noteq> goal g
      \<Longrightarrow> cur \<notin> vis
      \<Longrightarrow> bfs_expand (insert cur vis) cur (get_neighbors g cur) (q, iq - {cur}, cf) = (q2, iq2, cf2)
      \<Longrightarrow> I q2 iq2 cf2 (insert cur vis) (steps @ [make_step cur q vis])"
  shows "Q (bfs_loop g queue in_queue came_from vis steps)"
  using assms
proof (induction g queue in_queue came_from vis steps rule: bfs_loop.induct)
  case (1 g in_queue came_from vis steps)
  then show ?case by simp
next
  case (2 g cur queue in_queue came_from vis steps)
  note inv = "2.prems"(1)
  show ?case
  proof (cases "cur = goal g")
    case True
    then show ?thesis using "2.prems"(3) [OF inv True] by (simp add: Let_def)
  next
    case ng: False
    show ?thesis
    proof (cases "cur \<in> vis")
      case True
      have "Q (bfs_loop g queue (in_queue - {cur}) came_from vis (steps @ [make_step cur queue vis]))"
        by (rule "2.IH"(1) [OF refl refl ng True "2.prems"(4) [OF inv ng True] "2.prems"(2-5)])
      then show ?thesis using ng True by (simp add: Let_def)
    next
      case False
      obtain q2 iq2 cf2 where
        e: "bfs_expand (insert cur vis) cur (get_neighbors g cur) (queue, in_queue - {cur}, came_from)
            = (q2, iq2, cf2)"
        by (metis prod_cases3)
      have "Q (bfs_loop g q2 iq2 cf2 (insert cur vis) (steps @ [make_step cur queue vis]))"
        by (rule "2.IH"(2) [OF refl refl ng False refl refl e [symmetric] refl
              "2.prems"(5) [OF inv ng False e] "2.prems"(2-5)])
      then show ?thesis using ng False e by (simp add: Let_def)
    qed
  qed
qed


lemma dfs_push_rule:
  assumes "P (s, cf)"
    and "\<And>nbr w s cf. P (s, cf) \<Longrightarrow> (nbr, w) \<in> set ns \<Longrightarrow> nbr \<notin> vis
      \<Longrightarrow> P (s @ [nbr], if cf nbr = None then cf(nbr \<mapsto> Some cur) else cf)"
  shows "P (dfs_push vis cur ns (s, cf))"
  using assms
proof (induction ns arbitrary: s cf)
  case Nil
  then show ?case by simp
next
  case (Cons a ns)
  obtain nbr w where a: "a = (nbr, w)" by (cases a)
  have step: "\<And>nbr w s cf. P (s, cf) \<Longrightarrow> (nbr, w) \<in> set ns \<Longrightarrow> nbr \<notin> vis
      \<Longrightarrow> P (s @ [nbr], if cf nbr = None then cf(nbr \<mapsto> Some cur) else cf)"
    using Cons.prems(2) by (meson list.set_intros(2))
  show ?case
  proof (cases "nbr \<notin> vis")
    case True
    have "(nbr, w) \<in> set (a # ns)" using a by simp
    with Cons.prems(1) True
    have "P (s @ [nbr], if cf nbr = None then cf(nbr \<mapsto> Some cur) else cf)"
      by (intro Cons.prems(2)) simp_all
    then have "P (dfs_push vis cur ns (s @ [nbr], if cf nbr = None then cf(nbr \<mapsto> Some cur) else cf))"
      using step by (rule Cons.IH)
    then show ?thesis using True a by simp
  next
    case False
    have "P (dfs_push vis cur ns (s, cf))"
      using Cons.prems(1) step by (rule Cons.IH)
    then show ?thesis using False a by simp
  qed
qed

lemma dfs_loop_rule:
  assumes "I stack came_from vis steps"
    and "\<And>cf vis steps. I [] cf vis steps \<Longrightarrow> Q (Some (steps, []))"
    and "\<And>s cur cf vis steps. I (s @ [cur]) cf vis steps \<Longrightarrow> cur = goal g
      \<Longrightarrow> Q (map_option (Pair (steps @ [make_step cur s vis])) (reconstruct_path cf cur))"
    and "\<And>s cur cf vis steps. I (s @ [cur]) cf vis steps \<Longrightarrow> cur \<noteq> goal g \<Longrightarrow> cur \<in> vis
      \<Longrightarrow> I s cf vis (steps @ [make_step cur s vis])"
    and "\<And>s cur cf vis steps s2 cf2. I (s @ [cur]) cf vis steps \<Longrightarrow> cur \<noteq> goal g \<Longrightarrow> cur \<notin> vis
      \<Longrightarrow> dfs_push (insert cur vis) cur (rev (get_neighbors g cur)) (s, cf) = (s2, cf2)
      \<Longrightarrow> I s2 cf2 (insert cur vis) (steps @ [make_step cur s vis])"
  shows "Q (dfs_loop g stack came_from vis steps)"
  using assms
proof (induction g stack came_from vis steps rule: dfs_loop.induct)
  case (1 g stack came_from vis steps)
  show ?case
  proof (cases "stack = []")
    case True
    then show ?thesis using "1.prems"(1,2) by (subst dfs_loop.simps) simp
  next
    case ne: False
    define cur where "cur = last stack"
    define s where "s = butlast stack"
    have stack: "stack = s @ [cur]" using ne by (simp add: cur_def s_def)
    have inv: "I (s @ [cur]) came_from vis steps" using "1.prems"(1) stack by simp
    show ?thesis
    proof (cases "cur = goal g")
      case True
      then show ?thesis using "1.prems"(3) [OF inv True] ne
        by (subst dfs_loop.simps) (simp add: Let_def cur_def s_def)
    next
      case ng: False
      show ?thesis
      proof (cases "cur \<in> vis")
        case True
        have "Q (dfs_loop g s came_from vis (steps @ [make_step cur s vis]))"
          by (rule "1.IH"(1) [OF ne cur_def s_def refl ng True
                "1.prems"(4) [OF inv ng True] "1.prems"(2-5)])
        then show ?thesis using ng True ne
          by (subst dfs_loop.simps) (simp add: Let_def cur_def s_def)
      next
        case False
        obtain s2 cf2 where
          e: "dfs_push (insert cur vis) cur (rev (get_neighbors g cur)) (s, came_from) = (s2, cf2)"
          by (metis surj_pair)
        have "Q (dfs_loop g s2 cf2 (insert cur vis) (steps @ [make_step cur s vis]))"
          by (rule "1.IH"(2) [OF ne cur_def s_def refl ng False refl refl e [symmetric]
                "1.prems"(5) [OF inv ng False e] "1.prems"(2-5)])
        then show ?thesis using ng False ne e
          by (subst dfs_loop.simps) (simp add: Let_def cur_def s_def)
      qed
    qed
  qed
qed

lemma dls_push_rule:
  assumes "P (s, cf)"
    and "\<And>nbr w s cf. P (s, cf) \<Longrightarrow> (nbr, w) \<in> set ns \<Longrightarrow> nbr \<notin> vis
      \<Longrightarrow> P (s @ [(nbr, depth + 1)], if cf nbr = None then cf(nbr \<mapsto> Some cur) else cf)"
  shows "P (dls_push vis cur depth ns (s, cf))"
  using assms
proof (induction ns arbitrary: s cf)
  case Nil
  then show ?case by simp
next
  case (Cons a ns)
  obtain nbr w where a: "a = (nbr, w)" by (cases a)
  have step: "\<And>nbr w s cf. P (s, cf) \<Longrightarrow> (nbr, w) \<in> set ns \<Longrightarrow> nbr \<notin> vis
      \<Longrightarrow> P (s @ [(nbr, depth + 1)], if cf nbr = None then cf(nbr \<mapsto> Some cur) else cf)"
    using Cons.prems(2) by (meson list.set_intros(2))
  show ?case
  proof (cases "nbr \<notin> vis")
    case True
    have "(nbr, w) \<in> set (a # ns)" using a by simp
    with Cons.prems(1) True
    have "P (s @ [(nbr, depth + 1)], if cf nbr = None then cf(nbr \<mapsto> Some cur) else cf)"
      by (intro Cons.prems(2)) simp_all
    then have "P (dls_push vis cur depth ns
        (s @ [(nbr, depth + 1)], if cf nbr = None then cf(nbr \<mapsto> Some cur) else cf))"
      using step by (rule Cons.IH)
    then show ?thesis using True a by simp
  next
    case False
    have "P (dls_push vis cur depth ns (s, cf))"
      using Cons.prems(1) step by (rule Cons.IH)
    then show ?thesis using False a by simp
  qed
qed

lemma dls_loop_rule:
  assumes "I stack came_from vis steps"
    and "\<And>cf vis steps. I [] cf vis steps \<Longrightarrow> Q (Some (steps, []))"
    and "\<And>s cur d cf vis steps. I (s @ [(cur, d)]) cf vis steps \<Longrightarrow> cur = goal g
      \<Longrightarrow> Q (map_option (Pair (steps @ [make_step cur (map fst s) vis])) (reconstruct_path cf cur))"
    and "\<And>s cur d cf vis steps. I (s @ [(cur, d)]) cf vis steps \<Longrightarrow> cur \<noteq> goal g
      \<Longrightarrow> cur \<in> vis \<or> limit \<le> d
      \<Longrightarrow> I s cf vis (steps @ [make_step cur (map fst s) vis])"
    and "\<And>s cur d cf vis steps s2 cf2. I (s @ [(cur, d)]) cf vis steps \<Longrightarrow> cur \<noteq> goal g
      \<Longrightarrow> cur \<notin> vis \<Longrightarrow> d < limit
      \<Longrightarrow> dls_push (insert cur vis) cur d (rev (get_neighbors g cur)) (s, cf) = (s2, cf2)
      \<Longrightarrow> I s2 cf2 (insert cur vis) (steps @ [make_step cur (map fst s) vis])"
  shows "Q (dls_loop g limit stack came_from vis steps)"
  using assms
proof (induction g limit stack came_from vis steps rule: dls_loop.induct)
  case (1 g limit stack came_from vis steps)
  show ?case
  proof (cases "stack = []")
    case True
    then show ?thesis using "1.prems"(1,2) by (subst dls_loop.simps) simp
  next
    case ne: False
    define cur where "cur = fst (last stack)"
    define d where "d = snd (last stack)"
    define s where "s = butlast stack"
    have stack: "stack = s @ [(cur, d)]" using ne by (simp add: cur_def d_def s_def)
    have inv: "I (s @ [(cur, d)]) came_from vis steps" using "1.prems"(1) stack by simp
    show ?thesis
    proof (cases "cur = goal g")
      case True
      then show ?thesis using "1.prems"(3) [OF inv True] ne
        by (subst dls_loop.simps) (simp add: Let_def cur_def s_def)
    next
      case ng: False
      show ?thesis
      proof (cases "cur \<in> vis \<or> limit \<le> d")
        case True
        have "Q (dls_loop g limit s came_from vis (steps @ [make_step cur (map fst s) vis]))"
          by (rule "1.IH"(1) [OF ne cur_def d_def s_def refl ng True
                "1.prems"(4) [OF inv ng True] "1.prems"(2-5)])
        then show ?thesis using ng True ne
          by (subst dls_loop.simps) (simp add: Let_def cur_def s_def d_def)
      next
        case False
        then have nv: "cur \<notin> vis" and dl: "d < limit" by auto
        obtain s2 cf2 where
          e: "dls_push (insert cur vis) cur d (rev (get_neighbors g cur)) (s, came_from) = (s2, cf2)"
          by (metis surj_pair)
        have "Q (dls_loop g limit s2 cf2 (insert cur vis) (steps @ [make_step cur (map fst s) vis]))"
          by (rule "1.IH"(2) [OF ne cur_def d_def s_def refl ng False refl refl e [symmetric]
                "1.prems"(5) [OF inv ng nv dl e] "1.prems"(2-5)])
        then show ?thesis using ng False ne e
          by (subst dls_loop.simps) (simp add: Let_def cur_def s_def d_def)
      qed
    qed
  qed
qed


lemma ucs_relax_rule:
  assumes "P (heap, cf, cs, counter)"
    and "\<And>nbr w heap cf cs counter. P (heap, cf, cs, counter) \<Longrightarrow> (nbr, w) \<in> set ns
      \<Longrightarrow> (case cs nbr of None \<Rightarrow> True | Some c \<Rightarrow> fadd cur_cost w < c)
      \<Longrightarrow> P (heappush heap (fadd cur_cost w, counter + 1, nbr), cf(nbr \<mapsto> Some cur),
             cs(nbr \<mapsto> fadd cur_cost w), counter + 1)"
  shows "P (ucs_relax cur_cost cur ns (heap, cf, cs, counter))"
  using assms
proof (induction ns arbitrary: heap cf cs counter)
  case Nil
  then show ?case by simp
next
  case (Cons a ns)
  obtain nbr w where a: "a = (nbr, w)" by (cases a)
  have step: "\<And>nbr w heap cf cs counter. P (heap, cf, cs, counter) \<Longrightarrow> (nbr, w) \<in> set ns
      \<Longrightarrow> (case cs nbr of None \<Rightarrow> True | Some c \<Rightarrow> fadd cur_cost w < c)
      \<Longrightarrow> P (heappush heap (fadd cur_cost w, counter + 1, nbr), cf(nbr \<mapsto> Some cur),
             cs(nbr \<mapsto> fadd cur_cost w), counter + 1)"
    using Cons.prems(2) by (meson list.set_intros(2))
  show ?case
  proof (cases "case cs nbr of None \<Rightarrow> True | Some c \<Rightarrow> fadd cur_cost w < c")
    case True
    have "(nbr, w) \<in> set (a # ns)" using a by simp
    with Cons.prems(1) True
    have "P (heappush heap (fadd cur_cost w, counter + 1, nbr), cf(nbr \<mapsto> Some cur),
             cs(nbr \<mapsto> fadd cur_cost w), counter + 1)"
      by (intro Cons.prems(2)) simp_all
    then have "P (ucs_relax cur_cost cur ns (heappush heap (fadd cur_cost w, counter + 1, nbr),
        cf(nbr \<mapsto> Some cur), cs(nbr \<mapsto> fadd cur_cost w), counter + 1))"
      using step by (rule Cons.IH)
    then show ?thesis using True a by (simp add: Let_def)
  next
    case False
    have "P (ucs_relax cur_cost cur ns (heap, cf, cs, counter))"
      using Cons.prems(1) step by (rule Cons.IH)
    then show ?thesis using False a by (simp add: Let_def)
  qed
qed

lemma ucs_loop_rule:
  assumes "I heap came_from cost_so_far counter vis steps"
    and "\<And>cf cs counter vis steps. I [] cf cs counter vis steps \<Longrightarrow> Q (Some (steps, []))"
    and "\<And>heap cur_cost c cur heap1 cf cs counter vis steps.
      I heap cf cs counter vis steps \<Longrightarrow> heappop heap = Some ((cur_cost, c, cur), heap1)
      \<Longrightarrow> cur = goal g
      \<Longrightarrow> Q (map_option (Pair (steps @ [make_step cur (map entry_pos heap1) vis]))
            (reconstruct_path cf cur))"
    and "\<And>heap cur_cost c cur heap1 cf cs counter vis steps.
      I heap cf cs counter vis steps \<Longrightarrow> heappop heap = Some ((cur_cost, c, cur), heap1)
      \<Longrightarrow> cur \<noteq> goal g \<Longrightarrow> cur \<in> vis
      \<Longrightarrow> I heap1 cf cs counter vis (steps @ [make_step cur (map entry_pos heap1) vis])"
    and "\<And>heap cur_cost c cur heap1 cf cs counter vis steps heap2 cf2 cs2 counter2.
      I heap cf cs counter vis steps \<Longrightarrow> heappop heap = Some ((cur_cost, c, cur), heap1)
      \<Longrightarrow> cur \<noteq> goal g \<Longrightarrow> cur \<notin> vis
      \<Longrightarrow> ucs_relax cur_cost cur (get_neighbors g cur) (heap1, cf, cs, counter)
            = (heap2, cf2, cs2, counter2)
      \<Longrightarrow> I heap2 cf2 cs2 counter2 (insert cur vis)
            (steps @ [make_step cur (map entry_pos heap1) vis])"
  shows "Q (ucs_loop g heap came_from cost_so_far counter vis steps)"
  using assms
proof (induction g heap came_from cost_so_far counter vis steps rule: ucs_loop.induct)
  case (1 g heap came_from cost_so_far counter vis steps)
  note inv = "1.prems"(1)
  show ?case
  proof (cases "heap = []")
    case True
    then show ?thesis using "1.prems"(1,2) by (subst ucs_loop.simps) simp
  next
    case ne: False
    obtain cur_cost c cur heap1 where pop: "heappop heap = Some ((cur_cost, c, cur), heap1)"
      using heappop_nonempty [OF ne] by (metis prod_cases3)
    show ?thesis
    proof (cases "cur = goal g")
      case True
      then show ?thesis using "1.prems"(3) [OF inv pop True] ne pop
        by (subst ucs_loop.simps) (simp add: Let_def)
    next
      case ng: False
      show ?thesis
      proof (cases "cur \<in> vis")
        case True
        have "Q (ucs_loop g heap1 came_from cost_so_far counter vis
            (steps @ [make_step cur (map entry_pos heap1) vis]))"
          by (rule "1.IH"(1) [OF ne pop refl refl refl refl ng True
                "1.prems"(4) [OF inv pop ng True] "1.prems"(2-5)])
        then show ?thesis using ng True ne pop
          by (subst ucs_loop.simps) (simp add: Let_def)
      next
        case False
        obtain heap2 cf2 cs2 counter2 where
          e: "ucs_relax cur_cost cur (get_neighbors g cur) (heap1, came_from, cost_so_far, counter)
              = (heap2, cf2, cs2, counter2)"
          by (metis prod_cases4)
        have "Q (ucs_loop g heap2 cf2 cs2 counter2 (insert cur vis)
            (steps @ [make_step cur (map entry_pos heap1) vis]))"
          by (rule "1.IH"(2) [OF ne pop refl refl refl refl ng False refl e [symmetric] refl refl
                "1.prems"(5) [OF inv pop ng False e] "1.prems"(2-5)])
        then show ?thesis using ng False ne pop e
          by (subst ucs_loop.simps) (simp add: Let_def)
      qed
    qed
  qed
qed

lemma bidir_expand_rule:
  assumes "P (q, v, p)"
    and "\<And>nbr w q v p. P (q, v, p) \<Longrightarrow> (nbr, w) \<in> set ns \<Longrightarrow> nbr \<notin> v
      \<Longrightarrow> P (q @ [nbr], insert nbr v, p(nbr \<mapsto> Some cur))"
  shows "P (bidir_expand cur ns (q, v, p))"
  using assms
proof (induction ns arbitrary: q v p)
  case Nil
  then show ?case by simp
next
  case (Cons a ns)
  obtain nbr w where a: "a = (nbr, w)" by (cases a)
  have step: "\<And>nbr w q v p. P (q, v, p) \<Longrightarrow> (nbr, w) \<in> set ns \<Longrightarrow> nbr \<notin> v
      \<Longrightarrow> P (q @ [nbr], insert nbr v, p(nbr \<mapsto> Some cur))"
    using Cons.prems(2) by (meson list.set_intros(2))
  show ?case
  proof (cases "nbr \<notin> v")
    case True
    have "(nbr, w) \<in> set (a # ns)" using a by simp
    with Cons.prems(1) True have "P (q @ [nbr], insert nbr v, p(nbr \<mapsto> Some cur))"
      by (intro Cons.prems(2)) simp_all
    then have "P (bidir_expand cur ns (q @ [nbr], insert nbr v, p(nbr \<mapsto> Some cur)))"
      using step by (rule Cons.IH)
    then show ?thesis using True a by simp
  next
    case False
    have "P (bidir_expand cur ns (q, v, p))"
      using Cons.prems(1) step by (rule Cons.IH)
    then show ?thesis using False a by simp
  qed
qed

lemma fwd_half_cases:
  obtains (meet) cur fq1 where "fq = cur # fq1" "cur \<in> bv"
      "fwd_half g fq fv fp bq bv steps = Inl (steps @ [make_step cur (fq1 @ bq) (fv \<union> bv)], cur)"
  | (expand) cur fq1 fq2 fv2 fp2 where "fq = cur # fq1" "cur \<notin> bv"
      "bidir_expand cur (get_neighbors g cur) (fq1, fv, fp) = (fq2, fv2, fp2)"
      "fwd_half g fq fv fp bq bv steps = Inr (fq2, fv2, fp2, steps @ [make_step cur (fq1 @ bq) (fv \<union> bv)])"
  | (empty) "fq = []"
proof (cases fq)
  case Nil
  then show ?thesis by (rule empty)
next
  case (Cons cur fq1)
  show ?thesis
  proof (cases "cur \<in> bv")
    case True
    then show ?thesis using Cons by (intro meet [of cur fq1]) (simp_all add: fwd_half_def Let_def)
  next
    case False
    obtain fq2 fv2 fp2 where
      e: "bidir_expand cur (get_neighbors g cur) (fq1, fv, fp) = (fq2, fv2, fp2)"
      by (metis prod_cases3)
    then show ?thesis using False Cons
      by (intro expand [of cur fq1 fq2 fv2 fp2]) (simp_all add: fwd_half_def Let_def)
  qed
qed

lemma bwd_half_cases:
  obtains (meet) cur bq1 where "bq = cur # bq1" "cur \<in> fv"
      "bwd_half g fq fv bq bv bp steps = Inl (steps @ [make_step cur (fq @ bq1) (fv \<union> bv)], cur)"
  | (expand) cur bq1 bq2 bv2 bp2 where "bq = cur # bq1" "cur \<notin> fv"
      "bidir_expand cur (get_neighbors g cur) (bq1, bv, bp) = (bq2, bv2, bp2)"
      "bwd_half g fq fv bq bv bp steps = Inr (bq2, bv2, bp2, steps @ [make_step cur (fq @ bq1) (fv \<union> bv)])"
  | (empty) "bq = []"
proof (cases bq)
  case Nil
  then show ?thesis by (rule empty)
next
  case (Cons cur bq1)
  show ?thesis
  proof (cases "cur \<in> fv")
    case True
    then show ?thesis using Cons by (intro meet [of cur bq1]) (simp_all add: bwd_half_def Let_def)
  next
    case False
    obtain bq2 bv2 bp2 where
      e: "bidir_expand cur (get_neighbors g cur) (bq1, bv, bp) = (bq2, bv2, bp2)"
      by (metis prod_cases3)
    then show ?thesis using False Cons
      by (intro expand [of cur bq1 bq2 bv2 bp2]) (simp_all add: bwd_half_def Let_def)
  qed
qed

lemma bidirectional_loop_rule:
  assumes "I fq fv fp bq bv bp steps"
    and "\<And>fv fp bv bp steps. I [] fv fp [] bv bp steps \<Longrightarrow> Q (Some (steps, []))"
    and "\<And>cur fq fv fp bq bv bp steps. I (cur # fq) fv fp bq bv bp steps \<Longrightarrow> cur \<in> bv
      \<Longrightarrow> Q (map_option (Pair (steps @ [make_step cur (fq @ bq) (fv \<union> bv)])) (merge_paths fp bp cur))"
    and "\<And>cur fq fv fp bq bv bp steps fq2 fv2 fp2. I (cur # fq) fv fp bq bv bp steps \<Longrightarrow> cur \<notin> bv
      \<Longrightarrow> bidir_expand cur (get_neighbors g cur) (fq, fv, fp) = (fq2, fv2, fp2)
      \<Longrightarrow> I fq2 fv2 fp2 bq bv bp (steps @ [make_step cur (fq @ bq) (fv \<union> bv)])"
    and "\<And>cur fq fv fp bq bv bp steps. I fq fv fp (cur # bq) bv bp steps \<Longrightarrow> cur \<in> fv
      \<Longrightarrow> Q (map_option (Pair (steps @ [make_step cur (fq @ bq) (fv \<union> bv)])) (merge_paths fp bp cur))"
    and "\<And>cur fq fv fp bq bv bp steps bq2 bv2 bp2. I fq fv fp (cur # bq) bv bp steps \<Longrightarrow> cur \<notin> fv
      \<Longrightarrow> bidir_expand cur (get_neighbors g cur) (bq, bv, bp) = (bq2, bv2, bp2)
      \<Longrightarrow> I fq fv fp bq2 bv2 bp2 (steps @ [make_step cur (fq @ bq) (fv \<union> bv)])"
  shows "Q (bidirectional_loop g fq fv fp bq bv bp steps)"
  using assms
proof (induction g fq fv fp bq bv bp steps rule: bidirectional_loop.induct)
  case (1 g fq fv fp bq bv bp steps)
  note inv = "1.prems"(1)
  show ?case
  proof (cases "fq = [] \<and> bq = []")
    case True
    then show ?thesis using "1.prems"(1,2) by (subst bidirectional_loop.simps) simp
  next
    case ne: False
    text \<open>The state after the forward half, when it does not return.\<close>
    have fwd: "(\<exists>cur fq1. fq = cur # fq1 \<and> cur \<in> bv
          \<and> fwd_half g fq fv fp bq bv steps = Inl (steps @ [make_step cur (fq1 @ bq) (fv \<union> bv)], cur))
      \<or> (\<exists>fq2 fv2 fp2 steps1.
          (if fq \<noteq> [] then fwd_half g fq fv fp bq bv steps else Inr (fq, fv, fp, steps))
            = Inr (fq2, fv2, fp2, steps1) \<and> I fq2 fv2 fp2 bq bv bp steps1)"
    proof (cases rule: fwd_half_cases [of fq bv g fv fp bq steps])
      case (meet cur fq1)
      then show ?thesis by blast
    next
      case (expand cur fq1 fq2 fv2 fp2)
      have "I fq2 fv2 fp2 bq bv bp (steps @ [make_step cur (fq1 @ bq) (fv \<union> bv)])"
        using inv expand(1,2,3) by (intro "1.prems"(4)) simp_all
      then show ?thesis using expand by simp
    next
      case empty
      then show ?thesis using inv by simp
    qed
    from fwd show ?thesis
    proof (elim disjE exE conjE)
      fix cur fq1
      assume a: "fq = cur # fq1" "cur \<in> bv"
        "fwd_half g fq fv fp bq bv steps = Inl (steps @ [make_step cur (fq1 @ bq) (fv \<union> bv)], cur)"
      have "Q (map_option (Pair (steps @ [make_step cur (fq1 @ bq) (fv \<union> bv)])) (merge_paths fp bp cur))"
        using inv a(1,2) by (intro "1.prems"(3)) simp_all
      then show ?thesis using a by (subst bidirectional_loop.simps) simp
    next
      fix fq2 fv2 fp2 steps1
      assume f: "(if fq \<noteq> [] then fwd_half g fq fv fp bq bv steps else Inr (fq, fv, fp, steps))
            = Inr (fq2, fv2, fp2, steps1)"
        and inv1: "I fq2 fv2 fp2 bq bv bp steps1"
      show ?thesis
      proof (cases rule: bwd_half_cases [of bq fv2 g fq2 bv bp steps1])
        case (meet cur bq1)
        have "Q (map_option (Pair (steps1 @ [make_step cur (fq2 @ bq1) (fv2 \<union> bv)])) (merge_paths fp2 bp cur))"
          using inv1 meet(1,2) by (intro "1.prems"(5)) simp_all
        then show ?thesis using ne f meet by (subst bidirectional_loop.simps) simp
      next
        case (expand cur bq1 bq2 bv2 bp2)
        have inv2: "I fq2 fv2 fp2 bq2 bv2 bp2 (steps1 @ [make_step cur (fq2 @ bq1) (fv2 \<union> bv)])"
          using inv1 expand(1,2,3) by (intro "1.prems"(6)) simp_all
        have bne: "bq \<noteq> []" using expand(1) by simp
        have "Q (bidirectional_loop g fq2 fv2 fp2 bq2 bv2 bp2
            (steps1 @ [make_step cur (fq2 @ bq1) (fv2 \<union> bv)]))"
          by (rule "1.IH"(1) [OF ne f refl refl refl bne expand(4) refl refl refl inv2 "1.prems"(2-6)])
        then show ?thesis using ne f expand bne by (subst bidirectional_loop.simps) simp
      next
        case empty
        then have bne: "\<not> bq \<noteq> []" by simp
        have "Q (bidirectional_loop g fq2 fv2 fp2 bq bv bp steps1)"
          by (rule "1.IH"(2) [OF ne f refl refl refl bne inv1 "1.prems"(2-6)])
        then show ?thesis using ne f empty by (subst bidirectional_loop.simps) simp
      qed
    qed
  qed
qed

lemma iddfs_loop_rule:
  assumes "I all_steps"
    and "\<And>all_steps. I all_steps \<Longrightarrow> Q (Some (all_steps, []))"
    and "\<And>l all_steps. I all_steps \<Longrightarrow> l \<in> set ls \<Longrightarrow> dls g l = None \<Longrightarrow> Q None"
    and "\<And>l all_steps steps path. I all_steps \<Longrightarrow> l \<in> set ls \<Longrightarrow> dls g l = Some (steps, path)
      \<Longrightarrow> path \<noteq> [] \<Longrightarrow> Q (Some (all_steps @ steps, path))"
    and "\<And>l all_steps steps. I all_steps \<Longrightarrow> l \<in> set ls \<Longrightarrow> dls g l = Some (steps, [])
      \<Longrightarrow> I (all_steps @ steps)"
  shows "Q (iddfs_loop g ls all_steps)"
  using assms
proof (induction ls arbitrary: all_steps)
  case Nil
  then show ?case by simp
next
  case (Cons l ls)
  have l: "l \<in> set (l # ls)" by simp
  show ?case
  proof (cases "dls g l")
    case None
    then show ?thesis using Cons.prems(3) [OF Cons.prems(1) l None] by simp
  next
    case (Some r)
    obtain steps path where r: "r = (steps, path)" by (cases r)
    show ?thesis
    proof (cases "path = []")
      case True
      have "I (all_steps @ steps)"
        using Cons.prems(5) [OF Cons.prems(1) l] Some r True by simp
      then have "Q (iddfs_loop g ls (all_steps @ steps))"
      proof (rule Cons.IH)
        show "\<And>all_steps. I all_steps \<Longrightarrow> Q (Some (all_steps, []))" by (rule Cons.prems(2))
        show "\<And>l all_steps. I all_steps \<Longrightarrow> l \<in> set ls \<Longrightarrow> dls g l = None \<Longrightarrow> Q None"
          using Cons.prems(3) by (meson list.set_intros(2))
        show "\<And>l all_steps steps path. I all_steps \<Longrightarrow> l \<in> set ls \<Longrightarrow> dls g l = Some (steps, path)
          \<Longrightarrow> path \<noteq> [] \<Longrightarrow> Q (Some (all_steps @ steps, path))"
          using Cons.prems(4) by (meson list.set_intros(2))
        show "\<And>l all_steps steps. I all_steps \<Longrightarrow> l \<in> set ls \<Longrightarrow> dls g l = Some (steps, [])
          \<Longrightarrow> I (all_steps @ steps)"
          using Cons.prems(5) by (meson list.set_intros(2))
      qed
      then show ?thesis using Some r True by (simp add: Let_def)
    next
      case False
      then show ?thesis
        using Cons.prems(4) [OF Cons.prems(1) l _ False, of steps] Some r by (simp add: Let_def)
    qed
  qed
qed

section \<open>Routes and parent trees\<close>

text \<open>\<open>step_ok g p q\<close>: \<open>q\<close> is among the neighbours \<open>get_neighbors\<close> returns for \<open>p\<close>.\<close>

definition step_ok :: "grid \<Rightarrow> pos \<Rightarrow> pos \<Rightarrow> bool" where
  "step_ok g p q \<longleftrightarrow> q \<in> fst ` set (get_neighbors g p)"

definition valid_path :: "grid \<Rightarrow> pos list \<Rightarrow> bool" where
  "valid_path g ps \<longleftrightarrow> successively (step_ok g) ps"

text \<open>A route: a non-empty path from the start to the goal along neighbour transitions.\<close>

definition route :: "grid \<Rightarrow> pos list \<Rightarrow> bool" where
  "route g ps \<longleftrightarrow> ps \<noteq> [] \<and> hd ps = start g \<and> last ps = goal g \<and> valid_path g ps"

text \<open>\<open>chain cf x ps\<close>: following the parent entries from \<open>x\<close> visits \<open>ps\<close> and ends at
  an entry without parent.\<close>

inductive chain :: "parents \<Rightarrow> pos \<Rightarrow> pos list \<Rightarrow> bool" where
  root: "cf x = Some None \<Longrightarrow> chain cf x [x]"
| link: "cf x = Some (Some p) \<Longrightarrow> chain cf p ps \<Longrightarrow> chain cf x (x # ps)"

definition tree :: "grid \<Rightarrow> pos \<Rightarrow> parents \<Rightarrow> bool" where
  "tree g s cf \<longleftrightarrow>
     (\<forall>x \<in> dom cf. \<exists>ps. chain cf x ps) \<and>
     (\<forall>x. cf x = Some None \<longrightarrow> x = s) \<and>
     (\<forall>x p. cf x = Some (Some p) \<longrightarrow> step_ok g p x)"

lemma chain_hd: "chain cf x ps \<Longrightarrow> ps \<noteq> [] \<and> hd ps = x"
  by (induction rule: chain.induct) auto

lemma chain_dom: "chain cf x ps \<Longrightarrow> set ps \<subseteq> dom cf"
  by (induction rule: chain.induct) auto

lemma chain_last: "chain cf x ps \<Longrightarrow> cf (last ps) = Some None"
  by (induction rule: chain.induct) (auto dest: chain_hd)

lemma chain_valid:
  assumes "chain cf x ps" and "\<forall>x p. cf x = Some (Some p) \<longrightarrow> step_ok g p x"
  shows "successively (step_ok g) (rev ps)"
  using assms
proof (induction rule: chain.induct)
  case (root cf x)
  then show ?case by simp
next
  case (link cf x p ps)
  have ne: "ps \<noteq> []" and "hd ps = p" using chain_hd [OF link.hyps(2)] by auto
  then have "last (rev ps) = p" by (simp add: last_rev)
  moreover have "step_ok g p x" using link.prems link.hyps(1) by blast
  ultimately have 1: "step_ok g (last (rev ps)) x" by simp
  have 2: "successively (step_ok g) (rev ps)" by (rule link.IH [OF link.prems])
  have "successively (step_ok g) (rev ps @ [x])"
    unfolding successively_append_iff using 1 2 ne by simp
  then show ?case by (simp del: successively_rev)
qed

lemma chain_reconstruct_loop:
  "chain cf x ps \<Longrightarrow> reconstruct_loop cf x (acc @ [x]) = Some (acc @ ps)"
proof (induction arbitrary: acc rule: chain.induct)
  case (root cf x)
  then show ?case by (subst reconstruct_loop.simps) (simp add: dict_get_def)
next
  case (link cf x p ps)
  have "reconstruct_loop cf x (acc @ [x]) = reconstruct_loop cf p ((acc @ [x]) @ [p])"
    using link.hyps(1) by (subst reconstruct_loop.simps) (simp add: dict_get_def)
  also have "\<dots> = Some ((acc @ [x]) @ ps)" by (rule link.IH)
  finally show ?case by simp
qed

lemma chain_reconstruct_path: "chain cf x ps \<Longrightarrow> reconstruct_path cf x = Some (rev ps)"
  using chain_reconstruct_loop [of cf x ps "[]"] by (simp add: reconstruct_path_def)

lemma tree_reconstruct_path:
  assumes "tree g s cf" and "x \<in> dom cf"
  shows "\<exists>ps. reconstruct_path cf x = Some ps \<and> ps \<noteq> [] \<and> hd ps = s \<and> last ps = x
    \<and> valid_path g ps \<and> set ps \<subseteq> dom cf"
proof -
  obtain ps where c: "chain cf x ps" using assms unfolding tree_def by blast
  have ne: "ps \<noteq> []" and hd: "hd ps = x" using chain_hd [OF c] by auto
  have "cf (last ps) = Some None" using c by (rule chain_last)
  then have "last ps = s" using assms(1) unfolding tree_def by blast
  then have "hd (rev ps) = s" using ne by (simp add: hd_rev)
  moreover have "last (rev ps) = x" using ne hd by (simp add: last_rev)
  moreover have "valid_path g (rev ps)"
    unfolding valid_path_def using c assms(1) unfolding tree_def by (intro chain_valid) blast+
  moreover have "set (rev ps) \<subseteq> dom cf" using chain_dom [OF c] by simp
  ultimately show ?thesis using chain_reconstruct_path [OF c] ne by auto
qed

lemma chain_extend:
  assumes "chain cf x ps" and "n \<notin> dom cf"
  shows "chain (cf(n \<mapsto> v)) x ps"
  using assms
proof (induction rule: chain.induct)
  case (root cf x)
  then have "x \<noteq> n" by auto
  then show ?case using root by (intro chain.root) simp
next
  case (link cf x p ps)
  then have "x \<noteq> n" by auto
  then show ?case using link by (intro chain.link [of _ _ p]) simp_all
qed

lemma tree_init: "tree g s [s \<mapsto> None]"
  unfolding tree_def
proof (intro conjI ballI allI impI)
  fix x assume "x \<in> dom [s \<mapsto> None]"
  then have "x = s" by (auto split: if_splits)
  then have "chain [s \<mapsto> None] x [x]" by (intro chain.root) simp
  then show "\<exists>ps. chain [s \<mapsto> None] x ps" ..
qed (auto split: if_splits)

lemma tree_extend:
  assumes "tree g s cf" and "n \<notin> dom cf" and "cur \<in> dom cf" and "step_ok g cur n"
  shows "tree g s (cf(n \<mapsto> Some cur))"
  unfolding tree_def
proof (intro conjI ballI allI impI)
  fix x assume x: "x \<in> dom (cf(n \<mapsto> Some cur))"
  obtain cs where cs: "chain cf cur cs" using assms(1,3) unfolding tree_def by blast
  have cur: "chain (cf(n \<mapsto> Some cur)) cur cs" using cs assms(2) by (rule chain_extend)
  show "\<exists>ps. chain (cf(n \<mapsto> Some cur)) x ps"
  proof (cases "x = n")
    case True
    have "chain (cf(n \<mapsto> Some cur)) n (n # cs)" using cur by (intro chain.link [of _ _ cur]) simp_all
    then show ?thesis using True by blast
  next
    case False
    then have "x \<in> dom cf" using x by auto
    then obtain ps where "chain cf x ps" using assms(1) unfolding tree_def by blast
    then have "chain (cf(n \<mapsto> Some cur)) x ps" using assms(2) by (rule chain_extend)
    then show ?thesis ..
  qed
next
  fix x assume "(cf(n \<mapsto> Some cur)) x = Some None"
  then have "cf x = Some None" by (auto split: if_splits)
  then show "x = s" using assms(1) unfolding tree_def by blast
next
  fix x p assume "(cf(n \<mapsto> Some cur)) x = Some (Some p)"
  then have "(x = n \<and> p = cur) \<or> cf x = Some (Some p)" by (auto split: if_splits)
  then show "step_ok g p x" using assms(1,4) unfolding tree_def by blast
qed

section \<open>Reachability\<close>

lemma step_ok_neighbors: "(q, w) \<in> set (get_neighbors g p) \<Longrightarrow> step_ok g p q"
  by (force simp: step_ok_def)

lemma closed_path_stays:
  assumes "\<forall>v\<in>V. \<forall>q. step_ok g v q \<longrightarrow> q \<in> V"
  shows "successively (step_ok g) ps \<Longrightarrow> ps \<noteq> [] \<Longrightarrow> hd ps \<in> V \<Longrightarrow> set ps \<subseteq> V"
proof (induction ps)
  case Nil
  then show ?case by simp
next
  case (Cons p ps)
  show ?case
  proof (cases ps)
    case Nil
    then show ?thesis using Cons.prems by simp
  next
    case (Cons q qs)
    have "step_ok g p q" using Cons.prems(1) Cons by simp
    moreover have "p \<in> V" using Cons.prems(3) by simp
    ultimately have "q \<in> V" using assms by blast
    moreover have "successively (step_ok g) ps" using Cons.prems(1) Cons by simp
    ultimately have "set ps \<subseteq> V" using Cons by (intro Cons.IH) simp_all
    then show ?thesis using \<open>p \<in> V\<close> by simp
  qed
qed

lemma closed_no_route:
  assumes "start g \<in> V" and "\<forall>v\<in>V. \<forall>q. step_ok g v q \<longrightarrow> q \<in> V" and "goal g \<notin> V"
  shows "\<not> route g ps"
proof
  assume r: "route g ps"
  then have "set ps \<subseteq> V"
    using assms(1) by (intro closed_path_stays [OF assms(2)]) (simp_all add: route_def valid_path_def)
  moreover have "goal g \<in> set ps" using r by (metis last_in_set route_def)
  ultimately show False using assms(3) by blast
qed

section \<open>Correctness of breadth-first search\<close>

definition bfs_inv :: "grid \<Rightarrow> pos list \<Rightarrow> pos set \<Rightarrow> parents \<Rightarrow> pos set \<Rightarrow> bool" where
  "bfs_inv g queue in_queue came_from vis \<longleftrightarrow>
     distinct queue \<and> in_queue = set queue \<and> set queue \<inter> vis = {} \<and>
     dom came_from = vis \<union> set queue \<and> tree g (start g) came_from \<and>
     start g \<in> dom came_from \<and> goal g \<notin> vis \<and>
     (\<forall>v\<in>vis. \<forall>q. step_ok g v q \<longrightarrow> q \<in> dom came_from)"

lemma bfs_expand_covers:
  "bfs_expand vis cur ns (q, iq, cf) = (q', iq', cf') \<Longrightarrow> iq \<subseteq> iq' \<and> fst ` set ns \<subseteq> vis \<union> iq'"
proof (induction ns arbitrary: q iq cf)
  case Nil
  then show ?case by simp
next
  case (Cons a ns)
  obtain nbr w where a: "a = (nbr, w)" by (cases a)
  show ?case
  proof (cases "nbr \<notin> vis \<and> nbr \<notin> iq")
    case True
    then have "bfs_expand vis cur ns (q @ [nbr], insert nbr iq, cf(nbr \<mapsto> Some cur)) = (q', iq', cf')"
      using Cons.prems a by simp
    from Cons.IH [OF this] show ?thesis using a by auto
  next
    case False
    then have "bfs_expand vis cur ns (q, iq, cf) = (q', iq', cf')"
      using Cons.prems a by auto
    from Cons.IH [OF this] show ?thesis using a False by auto
  qed
qed

definition bfs_mid :: "grid \<Rightarrow> pos set \<Rightarrow> pos list \<times> pos set \<times> parents \<Rightarrow> bool" where
  "bfs_mid g vis st \<longleftrightarrow> (case st of (q, iq, cf) \<Rightarrow>
     distinct q \<and> iq = set q \<and> set q \<inter> vis = {} \<and> dom cf = vis \<union> set q \<and> tree g (start g) cf)"

lemma bfs_expand_mid:
  assumes "bfs_mid g vis (q, iq, cf)" and "cur \<in> vis"
  shows "bfs_mid g vis (bfs_expand vis cur (get_neighbors g cur) (q, iq, cf))"
  using assms(1)
proof (rule bfs_expand_rule)
  fix nbr w q iq cf
  assume m: "bfs_mid g vis (q, iq, cf)" and n: "(nbr, w) \<in> set (get_neighbors g cur)"
    and nv: "nbr \<notin> vis" and nq: "nbr \<notin> iq"
  have fresh: "nbr \<notin> dom cf" using m nv nq by (simp add: bfs_mid_def)
  have "cur \<in> dom cf" using m assms(2) by (simp add: bfs_mid_def)
  then have "tree g (start g) (cf(nbr \<mapsto> Some cur))"
    using m fresh step_ok_neighbors [OF n] by (intro tree_extend) (simp_all add: bfs_mid_def)
  then show "bfs_mid g vis (q @ [nbr], insert nbr iq, cf(nbr \<mapsto> Some cur))"
    using m nv nq by (auto simp: bfs_mid_def)
qed

lemma bfs_inv_expand:
  assumes inv: "bfs_inv g (cur # q) iq cf vis" and ng: "cur \<noteq> goal g" and nv: "cur \<notin> vis"
    and e: "bfs_expand (insert cur vis) cur (get_neighbors g cur) (q, iq - {cur}, cf) = (q2, iq2, cf2)"
  shows "bfs_inv g q2 iq2 cf2 (insert cur vis)"
proof -
  let ?vis = "insert cur vis"
  have "bfs_mid g ?vis (q, iq - {cur}, cf)"
    using inv by (auto simp: bfs_inv_def bfs_mid_def)
  then have "bfs_mid g ?vis (bfs_expand ?vis cur (get_neighbors g cur) (q, iq - {cur}, cf))"
    by (rule bfs_expand_mid) simp
  then have mid: "distinct q2" "iq2 = set q2" "set q2 \<inter> ?vis = {}" "dom cf2 = ?vis \<union> set q2"
    "tree g (start g) cf2"
    unfolding e by (simp_all add: bfs_mid_def)
  have cov: "iq - {cur} \<subseteq> iq2" "fst ` set (get_neighbors g cur) \<subseteq> ?vis \<union> iq2"
    using bfs_expand_covers [OF e] by simp_all
  have old: "dom cf \<subseteq> dom cf2"
    using inv cov(1) mid(2,4) by (auto simp: bfs_inv_def)
  have closed: "\<forall>v\<in>?vis. \<forall>p. step_ok g v p \<longrightarrow> p \<in> dom cf2"
  proof (intro ballI allI impI)
    fix v p assume v: "v \<in> ?vis" and s: "step_ok g v p"
    show "p \<in> dom cf2"
    proof (cases "v = cur")
      case True
      then have "p \<in> fst ` set (get_neighbors g cur)" using s by (simp add: step_ok_def)
      then show ?thesis using cov(2) mid(2,4) by blast
    next
      case False
      then have "v \<in> vis" using v by simp
      then have "p \<in> dom cf" using inv s unfolding bfs_inv_def by blast
      then show ?thesis using old by blast
    qed
  qed
  have "start g \<in> dom cf2" using inv old unfolding bfs_inv_def by blast
  moreover have "goal g \<notin> ?vis" using inv ng by (simp add: bfs_inv_def)
  ultimately show ?thesis using mid closed unfolding bfs_inv_def by simp
qed

text \<open>What a search result must satisfy: it is returned, an empty path means that no
  route exists, and a non-empty path is a route.\<close>

definition search_ok :: "grid \<Rightarrow> result \<Rightarrow> bool" where
  "search_ok g r \<longleftrightarrow> (\<exists>steps path. r = Some (steps, path) \<and>
     (if path = [] then (\<forall>ps. \<not> route g ps) else route g path))"

lemma search_ok_found:
  assumes "tree g (start g) cf" and "goal g \<in> dom cf"
  shows "search_ok g (map_option (Pair steps) (reconstruct_path cf (goal g)))"
proof -
  obtain ps where "reconstruct_path cf (goal g) = Some ps" "ps \<noteq> []" "hd ps = start g"
    "last ps = goal g" "valid_path g ps"
    using tree_reconstruct_path [OF assms] by blast
  then show ?thesis by (simp add: search_ok_def route_def)
qed

lemma bfs_loop_ok:
  assumes "bfs_inv g queue in_queue came_from vis"
  shows "search_ok g (bfs_loop g queue in_queue came_from vis steps)"
proof (rule bfs_loop_rule [where I = "\<lambda>q iq cf vis steps. bfs_inv g q iq cf vis"])
  show "bfs_inv g queue in_queue came_from vis" by (rule assms)
next
  fix iq cf vis steps assume inv: "bfs_inv g [] iq cf vis"
  have "\<forall>ps. \<not> route g ps"
  proof
    fix ps
    show "\<not> route g ps"
      using inv unfolding bfs_inv_def by (intro closed_no_route [of g vis]) auto
  qed
  then show "search_ok g (Some (steps, []))" by (simp add: search_ok_def)
next
  fix cur q iq cf vis steps
  assume inv: "bfs_inv g (cur # q) iq cf vis" and c: "cur = goal g"
  have "goal g \<in> dom cf" using inv c by (auto simp: bfs_inv_def)
  then show "search_ok g (map_option (Pair (steps @ [make_step cur q vis])) (reconstruct_path cf cur))"
    unfolding c using inv by (intro search_ok_found) (simp_all add: bfs_inv_def)
next
  fix cur q iq cf vis steps
  assume "bfs_inv g (cur # q) iq cf vis" "cur \<in> vis"
  then show "bfs_inv g q (iq - {cur}) cf vis" by (auto simp: bfs_inv_def)
next
  fix cur q iq cf vis steps q2 iq2 cf2
  assume "bfs_inv g (cur # q) iq cf vis" "cur \<noteq> goal g" "cur \<notin> vis"
    "bfs_expand (insert cur vis) cur (get_neighbors g cur) (q, iq - {cur}, cf) = (q2, iq2, cf2)"
  then show "bfs_inv g q2 iq2 cf2 (insert cur vis)" by (rule bfs_inv_expand)
qed

lemma bfs_ok: "search_ok g (bfs g)"
  unfolding bfs_def
  by (rule bfs_loop_ok) (auto simp: bfs_inv_def tree_init)

section \<open>Correctness of depth-first search\<close>

definition dfs_inv :: "grid \<Rightarrow> pos list \<Rightarrow> parents \<Rightarrow> pos set \<Rightarrow> bool" where
  "dfs_inv g stack came_from vis \<longleftrightarrow>
     set stack \<subseteq> dom came_from \<and> vis \<subseteq> dom came_from \<and> tree g (start g) came_from \<and>
     start g \<in> vis \<union> set stack \<and> goal g \<notin> vis \<and>
     (\<forall>v\<in>vis. \<forall>q. step_ok g v q \<longrightarrow> q \<in> vis \<union> set stack)"

lemma dfs_push_covers:
  "dfs_push vis cur ns (s, cf) = (s', cf') \<Longrightarrow> set s \<subseteq> set s' \<and> fst ` set ns \<subseteq> vis \<union> set s'"
proof (induction ns arbitrary: s cf)
  case Nil
  then show ?case by simp
next
  case (Cons a ns)
  obtain nbr w where a: "a = (nbr, w)" by (cases a)
  show ?case
  proof (cases "nbr \<notin> vis")
    case True
    then have "dfs_push vis cur ns (s @ [nbr], if cf nbr = None then cf(nbr \<mapsto> Some cur) else cf)
        = (s', cf')"
      using Cons.prems a by simp
    from Cons.IH [OF this] show ?thesis using a by auto
  next
    case False
    then have "dfs_push vis cur ns (s, cf) = (s', cf')"
      using Cons.prems a by simp
    from Cons.IH [OF this] show ?thesis using a False by auto
  qed
qed

definition dfs_mid :: "grid \<Rightarrow> parents \<Rightarrow> pos list \<times> parents \<Rightarrow> bool" where
  "dfs_mid g cf0 st \<longleftrightarrow> (case st of (s, cf) \<Rightarrow>
     set s \<subseteq> dom cf \<and> dom cf0 \<subseteq> dom cf \<and> tree g (start g) cf)"

lemma tree_add_parent:
  assumes "tree g s cf" and "cur \<in> dom cf" and "step_ok g cur n"
  shows "tree g s (if cf n = None then cf(n \<mapsto> Some cur) else cf)"
  using assms by (auto intro: tree_extend)

lemma dfs_push_mid:
  assumes "dfs_mid g cf0 (s, cf)" and "cur \<in> dom cf0"
  shows "dfs_mid g cf0 (dfs_push vis cur (rev (get_neighbors g cur)) (s, cf))"
  using assms(1)
proof (rule dfs_push_rule)
  fix nbr w s cf
  assume m: "dfs_mid g cf0 (s, cf)" and n: "(nbr, w) \<in> set (rev (get_neighbors g cur))"
  have cur: "cur \<in> dom cf" using m assms(2) by (auto simp: dfs_mid_def)
  have ok: "step_ok g cur nbr" using n by (intro step_ok_neighbors [of nbr w]) simp
  have "tree g (start g) (if cf nbr = None then cf(nbr \<mapsto> Some cur) else cf)"
    using m cur ok by (intro tree_add_parent) (simp_all add: dfs_mid_def)
  then show "dfs_mid g cf0 (s @ [nbr], if cf nbr = None then cf(nbr \<mapsto> Some cur) else cf)"
    using m by (auto simp: dfs_mid_def)
qed

lemma dfs_inv_expand:
  assumes inv: "dfs_inv g (s @ [cur]) cf vis" and ng: "cur \<noteq> goal g"
    and e: "dfs_push (insert cur vis) cur (rev (get_neighbors g cur)) (s, cf) = (s2, cf2)"
  shows "dfs_inv g s2 cf2 (insert cur vis)"
proof -
  let ?vis = "insert cur vis"
  have cur: "cur \<in> dom cf" using inv by (simp add: dfs_inv_def)
  have "dfs_mid g cf (s, cf)" using inv by (simp add: dfs_inv_def dfs_mid_def)
  then have "dfs_mid g cf (dfs_push ?vis cur (rev (get_neighbors g cur)) (s, cf))"
    using cur by (rule dfs_push_mid)
  then have mid: "set s2 \<subseteq> dom cf2" "dom cf \<subseteq> dom cf2" "tree g (start g) cf2"
    unfolding e by (simp_all add: dfs_mid_def)
  have cov: "set s \<subseteq> set s2" "fst ` set (get_neighbors g cur) \<subseteq> ?vis \<union> set s2"
    using dfs_push_covers [OF e] by simp_all
  have closed: "\<forall>v\<in>?vis. \<forall>p. step_ok g v p \<longrightarrow> p \<in> ?vis \<union> set s2"
  proof (intro ballI allI impI)
    fix v p assume v: "v \<in> ?vis" and st: "step_ok g v p"
    show "p \<in> ?vis \<union> set s2"
    proof (cases "v = cur")
      case True
      then have "p \<in> fst ` set (get_neighbors g cur)" using st by (simp add: step_ok_def)
      then show ?thesis using cov(2) by blast
    next
      case False
      then have "v \<in> vis" using v by simp
      then have "p \<in> vis \<union> set (s @ [cur])" using inv st unfolding dfs_inv_def by blast
      then show ?thesis using cov(1) by auto
    qed
  qed
  have "start g \<in> vis \<union> set (s @ [cur])" using inv unfolding dfs_inv_def by blast
  then have "start g \<in> ?vis \<union> set s2" using cov(1) by auto
  moreover have "goal g \<notin> ?vis" using inv ng by (simp add: dfs_inv_def)
  moreover have "?vis \<subseteq> dom cf2" using inv mid(2) cur unfolding dfs_inv_def by blast
  ultimately show ?thesis using mid closed unfolding dfs_inv_def by simp
qed

lemma dfs_loop_ok:
  assumes "dfs_inv g stack came_from vis"
  shows "search_ok g (dfs_loop g stack came_from vis steps)"
proof (rule dfs_loop_rule [where I = "\<lambda>s cf vis steps. dfs_inv g s cf vis"])
  show "dfs_inv g stack came_from vis" by (rule assms)
next
  fix cf vis steps assume inv: "dfs_inv g [] cf vis"
  have "\<forall>ps. \<not> route g ps"
  proof
    fix ps
    show "\<not> route g ps"
      using inv unfolding dfs_inv_def by (intro closed_no_route [of g vis]) auto
  qed
  then show "search_ok g (Some (steps, []))" by (simp add: search_ok_def)
next
  fix s cur cf vis steps
  assume inv: "dfs_inv g (s @ [cur]) cf vis" and c: "cur = goal g"
  have "goal g \<in> dom cf" using inv c by (auto simp: dfs_inv_def)
  then show "search_ok g (map_option (Pair (steps @ [make_step cur s vis])) (reconstruct_path cf cur))"
    unfolding c using inv by (intro search_ok_found) (simp_all add: dfs_inv_def)
next
  fix s cur cf vis steps
  assume inv: "dfs_inv g (s @ [cur]) cf vis" and cv: "cur \<in> vis"
  have eq: "vis \<union> set (s @ [cur]) = vis \<union> set s" using cv by auto
  have "set s \<subseteq> set (s @ [cur])" by auto
  then have "set s \<subseteq> dom cf" using inv unfolding dfs_inv_def by blast
  then show "dfs_inv g s cf vis" using inv unfolding dfs_inv_def eq by blast
next
  fix s cur cf vis steps s2 cf2
  assume "dfs_inv g (s @ [cur]) cf vis" "cur \<noteq> goal g"
    "dfs_push (insert cur vis) cur (rev (get_neighbors g cur)) (s, cf) = (s2, cf2)"
  then show "dfs_inv g s2 cf2 (insert cur vis)" by (rule dfs_inv_expand)
qed

lemma dfs_ok: "search_ok g (dfs g)"
  unfolding dfs_def
  by (rule dfs_loop_ok) (auto simp: dfs_inv_def tree_init)

section \<open>Soundness of depth-limited search and iterative deepening\<close>

text \<open>A sound result: it is returned, and a non-empty path is a route.\<close>

definition search_sound :: "grid \<Rightarrow> result \<Rightarrow> bool" where
  "search_sound g r \<longleftrightarrow> (\<exists>steps path. r = Some (steps, path) \<and> (path = [] \<or> route g path))"

lemma search_ok_sound: "search_ok g r \<Longrightarrow> search_sound g r"
  by (auto simp: search_ok_def search_sound_def split: if_splits)

definition dls_inv :: "grid \<Rightarrow> (pos \<times> int) list \<Rightarrow> parents \<Rightarrow> bool" where
  "dls_inv g stack came_from \<longleftrightarrow> fst ` set stack \<subseteq> dom came_from \<and> tree g (start g) came_from"

definition dls_mid :: "grid \<Rightarrow> parents \<Rightarrow> (pos \<times> int) list \<times> parents \<Rightarrow> bool" where
  "dls_mid g cf0 st \<longleftrightarrow> (case st of (s, cf) \<Rightarrow>
     fst ` set s \<subseteq> dom cf \<and> dom cf0 \<subseteq> dom cf \<and> tree g (start g) cf)"

lemma dls_push_mid:
  assumes "dls_mid g cf0 (s, cf)" and "cur \<in> dom cf0"
  shows "dls_mid g cf0 (dls_push vis cur d (rev (get_neighbors g cur)) (s, cf))"
  using assms(1)
proof (rule dls_push_rule)
  fix nbr w s cf
  assume m: "dls_mid g cf0 (s, cf)" and n: "(nbr, w) \<in> set (rev (get_neighbors g cur))"
  have cur: "cur \<in> dom cf" using m assms(2) by (auto simp: dls_mid_def)
  have ok: "step_ok g cur nbr" using n by (intro step_ok_neighbors [of nbr w]) simp
  have "tree g (start g) (if cf nbr = None then cf(nbr \<mapsto> Some cur) else cf)"
    using m cur ok by (intro tree_add_parent) (simp_all add: dls_mid_def)
  then show "dls_mid g cf0 (s @ [(nbr, d + 1)], if cf nbr = None then cf(nbr \<mapsto> Some cur) else cf)"
    using m by (auto simp: dls_mid_def)
qed

lemma dls_loop_sound:
  assumes "dls_inv g stack came_from"
  shows "search_sound g (dls_loop g limit stack came_from vis steps)"
proof (rule dls_loop_rule [where I = "\<lambda>s cf vis steps. dls_inv g s cf"])
  show "dls_inv g stack came_from" by (rule assms)
next
  fix cf vis steps
  show "search_sound g (Some (steps, []))" by (simp add: search_sound_def)
next
  fix s cur d cf vis steps
  assume inv: "dls_inv g (s @ [(cur, d)]) cf" and c: "cur = goal g"
  have "goal g \<in> dom cf" using inv c by (auto simp: dls_inv_def)
  then have "search_ok g (map_option (Pair (steps @ [make_step cur (map fst s) vis]))
      (reconstruct_path cf (goal g)))"
    using inv by (intro search_ok_found) (simp_all add: dls_inv_def)
  then show "search_sound g (map_option (Pair (steps @ [make_step cur (map fst s) vis]))
      (reconstruct_path cf cur))"
    unfolding c by (rule search_ok_sound)
next
  fix s cur d cf vis steps
  assume "dls_inv g (s @ [(cur, d)]) cf"
  then show "dls_inv g s cf" unfolding dls_inv_def by auto
next
  fix s cur d cf vis steps s2 cf2
  assume inv: "dls_inv g (s @ [(cur, d)]) cf"
    and e: "dls_push (insert cur vis) cur d (rev (get_neighbors g cur)) (s, cf) = (s2, cf2)"
  have cur: "cur \<in> dom cf" using inv by (auto simp: dls_inv_def)
  have "dls_mid g cf (s, cf)" using inv by (auto simp: dls_inv_def dls_mid_def)
  then have "dls_mid g cf (dls_push (insert cur vis) cur d (rev (get_neighbors g cur)) (s, cf))"
    using cur by (rule dls_push_mid)
  then show "dls_inv g s2 cf2" unfolding e by (simp add: dls_mid_def dls_inv_def)
qed

lemma dls_sound: "search_sound g (dls g limit)"
  unfolding dls_def
  by (rule dls_loop_sound) (auto simp: dls_inv_def tree_init)

lemma iddfs_loop_sound: "search_sound g (iddfs_loop g ls all_steps)"
proof (rule iddfs_loop_rule [where I = "\<lambda>_. True"])
  fix l all_steps assume "dls g l = None"
  then show "search_sound g None" using dls_sound [of g l] by (simp add: search_sound_def)
next
  fix l all_steps steps path assume "dls g l = Some (steps, path)" "path \<noteq> []"
  then show "search_sound g (Some (all_steps @ steps, path))"
    using dls_sound [of g l] by (simp add: search_sound_def)
qed (simp_all add: search_sound_def)

lemma iddfs_sound: "search_sound g (iddfs g)"
  unfolding iddfs_def by (rule iddfs_loop_sound)

section \<open>Correctness of bidirectional search\<close>

lemma get_neighbors_candidates:
  "get_neighbors g p = filter (\<lambda>(q, w). is_valid g q) (candidates p)"
proof (cases p)
  case (Pair r c)
  show ?thesis
    unfolding get_neighbors_def Pair get_neighbors_loop_filter DIRECTIONS_def candidates_def
    by simp
qed

lemma step_ok_iff: "step_ok g p q \<longleftrightarrow> is_valid g q \<and> q \<in> fst ` set (candidates p)"
proof -
  have "fst ` set (filter (\<lambda>(q, w). is_valid g q) xs) = {q \<in> fst ` set xs. is_valid g q}" for xs
    by (induction xs) auto
  then show ?thesis unfolding step_ok_def get_neighbors_candidates by auto
qed

lemma candidates_sym: "q \<in> fst ` set (candidates p) \<Longrightarrow> p \<in> fst ` set (candidates q)"
  by (cases p; cases q) (auto simp: candidates_def)

lemma step_ok_sym: "is_valid g p \<Longrightarrow> step_ok g p q \<Longrightarrow> step_ok g q p"
  by (simp add: step_ok_iff candidates_sym)

lemma step_ok_cells: "step_ok g p q \<Longrightarrow> q \<in> cells g"
  by (simp add: step_ok_iff cells_def)

lemma merge_loop_None: "merge_loop parent None acc = Some acc"
  by (subst merge_loop.simps) simp

lemma chain_merge_loop: "chain cf x ps \<Longrightarrow> merge_loop cf (Some x) acc = Some (acc @ ps)"
proof (induction arbitrary: acc rule: chain.induct)
  case (root cf x)
  then show ?case
    by (subst merge_loop.simps) (simp add: dict_get_def merge_loop_None)
next
  case (link cf x p ps)
  have "merge_loop cf (Some x) acc = merge_loop cf (Some p) (acc @ [x])"
    using link.hyps(1) by (subst merge_loop.simps) (simp add: dict_get_def)
  then show ?case using link.IH [of "acc @ [x]"] by simp
qed

lemma chain_merge_tail:
  assumes "chain cf x ps"
  shows "merge_loop cf (dict_get cf x) [] = Some (tl ps)"
  using assms
proof (cases rule: chain.cases)
  case root
  then show ?thesis by (simp add: dict_get_def merge_loop_None)
next
  case (link p ps')
  then show ?thesis using chain_merge_loop [of cf p ps' "[]"] by (simp add: dict_get_def)
qed

lemma successively_join:
  assumes "successively P (xs @ [m])" and "successively P (m # ys)"
  shows "successively P (xs @ m # ys)"
  using assms by (auto simp: successively_append_iff)

lemma merge_paths_route:
  assumes f: "tree g (start g) fp" and b: "tree g (goal g) bp"
    and mf: "m \<in> dom fp" and mb: "m \<in> dom bp" and cells: "dom bp \<subseteq> cells g"
  shows "\<exists>path. merge_paths fp bp m = Some path \<and> route g path"
proof -
  obtain psf where cf: "chain fp m psf" using f mf unfolding tree_def by blast
  obtain psb where cb: "chain bp m psb" using b mb unfolding tree_def by blast
  have nf: "psf \<noteq> []" and hf: "hd psf = m" using chain_hd [OF cf] by auto
  have nb: "psb \<noteq> []" and hb: "hd psb = m" using chain_hd [OF cb] by auto
  have lf: "last psf = start g" using chain_last [OF cf] f unfolding tree_def by blast
  have lb: "last psb = goal g" using chain_last [OF cb] b unfolding tree_def by blast
  let ?path = "rev psf @ tl psb"
  have m: "merge_paths fp bp m = Some ?path"
    using chain_merge_loop [OF cf, of "[]"] chain_merge_tail [OF cb] by (simp add: merge_paths_def)
  have alt: "?path = rev (tl psf) @ m # tl psb"
    using nf hf by (cases psf) simp_all
  have psb: "psb = m # tl psb" using nb hb by (cases psb) simp_all
  have "successively (step_ok g) (rev psf)"
    using cf f unfolding tree_def by (intro chain_valid) blast+
  then have v1: "successively (step_ok g) (rev (tl psf) @ [m])"
    using nf hf by (cases psf) (simp_all del: successively_rev)
  have "successively (step_ok g) (rev psb)"
    using cb b unfolding tree_def by (intro chain_valid) blast+
  then have "successively (\<lambda>x y. step_ok g y x) psb" by simp
  then have "successively (step_ok g) psb"
  proof (rule successively_mono)
    fix x y assume "x \<in> set psb" "y \<in> set psb" "step_ok g y x"
    moreover have "is_valid g y" using \<open>y \<in> set psb\<close> chain_dom [OF cb] cells by (auto simp: cells_def)
    ultimately show "step_ok g x y" by (simp add: step_ok_sym)
  qed
  then have v2: "successively (step_ok g) (m # tl psb)" using psb by simp
  have valid: "valid_path g ?path"
    unfolding valid_path_def alt using v1 v2 by (rule successively_join)
  have "hd ?path = start g" using nf lf by (simp add: hd_rev)
  moreover have "last ?path = goal g"
  proof (cases "tl psb = []")
    case True
    then have "psb = [m]" using psb by simp
    then have "m = goal g" using lb by simp
    then show ?thesis using True nf hf by (simp add: last_rev)
  next
    case False
    then have "last (tl psb) = goal g" using lb nb by (simp add: last_tl)
    then show ?thesis using False by simp
  qed
  moreover have "?path \<noteq> []" using nf by simp
  ultimately have "route g ?path" using valid by (simp add: route_def)
  then show ?thesis using m by blast
qed

text \<open>One side of the search: its queue, visited set and parent dictionary.\<close>

definition side_inv :: "grid \<Rightarrow> pos \<Rightarrow> pos list \<Rightarrow> pos set \<Rightarrow> parents \<Rightarrow> bool" where
  "side_inv g s queue vis parent \<longleftrightarrow>
     distinct queue \<and> set queue \<subseteq> vis \<and> dom parent = vis \<and> tree g s parent \<and> s \<in> vis \<and>
     (\<forall>x\<in>vis - set queue. \<forall>y. step_ok g x y \<longrightarrow> y \<in> vis)"

lemma bidir_expand_covers:
  "bidir_expand cur ns (q, v, p) = (q', v', p')
    \<Longrightarrow> v \<subseteq> v' \<and> fst ` set ns \<subseteq> v' \<and> v' \<subseteq> v \<union> fst ` set ns \<and> v' - set q' \<subseteq> v - set q"
proof (induction ns arbitrary: q v p)
  case Nil
  then show ?case by simp
next
  case (Cons a ns)
  obtain nbr w where a: "a = (nbr, w)" by (cases a)
  show ?case
  proof (cases "nbr \<notin> v")
    case True
    then have "bidir_expand cur ns (q @ [nbr], insert nbr v, p(nbr \<mapsto> Some cur)) = (q', v', p')"
      using Cons.prems a by simp
    from Cons.IH [OF this] show ?thesis using a by auto
  next
    case False
    then have "bidir_expand cur ns (q, v, p) = (q', v', p')"
      using Cons.prems a by simp
    from Cons.IH [OF this] show ?thesis using a False by auto
  qed
qed

definition side_mid :: "grid \<Rightarrow> pos \<Rightarrow> pos \<Rightarrow> pos list \<times> pos set \<times> parents \<Rightarrow> bool" where
  "side_mid g s cur st \<longleftrightarrow> (case st of (q, v, p) \<Rightarrow>
     distinct q \<and> set q \<subseteq> v \<and> dom p = v \<and> tree g s p \<and> cur \<in> v)"

lemma bidir_expand_mid:
  assumes "side_mid g s cur (q, v, p)"
  shows "side_mid g s cur (bidir_expand cur (get_neighbors g cur) (q, v, p))"
  using assms
proof (rule bidir_expand_rule)
  fix nbr w q v p
  assume m: "side_mid g s cur (q, v, p)" and n: "(nbr, w) \<in> set (get_neighbors g cur)"
    and nv: "nbr \<notin> v"
  have "nbr \<notin> dom p" "cur \<in> dom p" using m nv by (simp_all add: side_mid_def)
  then have "tree g s (p(nbr \<mapsto> Some cur))"
    using m step_ok_neighbors [OF n] by (intro tree_extend) (simp_all add: side_mid_def)
  moreover have "nbr \<notin> set q" using m nv by (auto simp: side_mid_def)
  ultimately show "side_mid g s cur (q @ [nbr], insert nbr v, p(nbr \<mapsto> Some cur))"
    using m by (auto simp: side_mid_def)
qed

lemma side_inv_expand:
  assumes inv: "side_inv g s (cur # q) v p"
    and e: "bidir_expand cur (get_neighbors g cur) (q, v, p) = (q2, v2, p2)"
  shows "side_inv g s q2 v2 p2" and "v \<subseteq> v2" and "v2 \<subseteq> v \<union> cells g"
    and "v2 - set q2 \<subseteq> insert cur (v - set (cur # q))"
proof -
  have "side_mid g s cur (q, v, p)" using inv by (auto simp: side_inv_def side_mid_def)
  then have "side_mid g s cur (bidir_expand cur (get_neighbors g cur) (q, v, p))"
    by (rule bidir_expand_mid)
  then have mid: "distinct q2" "set q2 \<subseteq> v2" "dom p2 = v2" "tree g s p2"
    unfolding e by (simp_all add: side_mid_def)
  have cov: "v \<subseteq> v2" "fst ` set (get_neighbors g cur) \<subseteq> v2"
    "v2 \<subseteq> v \<union> fst ` set (get_neighbors g cur)" "v2 - set q2 \<subseteq> v - set q"
    using bidir_expand_covers [OF e] by simp_all
  show "v \<subseteq> v2" by (rule cov(1))
  show "v2 \<subseteq> v \<union> cells g" using cov(3) get_neighbors_fst_cells [of g cur] by blast
  have "cur \<notin> set q" using inv by (simp add: side_inv_def)
  then show sub: "v2 - set q2 \<subseteq> insert cur (v - set (cur # q))" using cov(4) by auto
  have closed: "\<forall>x\<in>v2 - set q2. \<forall>y. step_ok g x y \<longrightarrow> y \<in> v2"
  proof (intro ballI allI impI)
    fix x y assume x: "x \<in> v2 - set q2" and st: "step_ok g x y"
    show "y \<in> v2"
    proof (cases "x = cur")
      case True
      then have "y \<in> fst ` set (get_neighbors g cur)" using st by (simp add: step_ok_def)
      then show ?thesis using cov(2) by blast
    next
      case False
      then have "x \<in> v - set (cur # q)" using x sub by blast
      then have "y \<in> v" using inv st unfolding side_inv_def by blast
      then show ?thesis using cov(1) by blast
    qed
  qed
  have "s \<in> v2" using inv cov(1) unfolding side_inv_def by blast
  then show "side_inv g s q2 v2 p2" using mid closed unfolding side_inv_def by simp
qed

definition bidir_inv :: "grid \<Rightarrow> pos list \<Rightarrow> pos set \<Rightarrow> parents \<Rightarrow> pos list \<Rightarrow> pos set \<Rightarrow> parents \<Rightarrow> bool" where
  "bidir_inv g fq fv fp bq bv bp \<longleftrightarrow>
     side_inv g (start g) fq fv fp \<and> side_inv g (goal g) bq bv bp \<and>
     goal g \<notin> fv - set fq \<and> bv \<subseteq> cells g"

lemma bidir_inv_meet:
  assumes "bidir_inv g fq fv fp bq bv bp" and "m \<in> fv" and "m \<in> bv"
  shows "search_ok g (map_option (Pair steps) (merge_paths fp bp m))"
proof -
  have "\<exists>path. merge_paths fp bp m = Some path \<and> route g path"
    using assms by (intro merge_paths_route) (simp_all add: bidir_inv_def side_inv_def)
  then obtain path where "merge_paths fp bp m = Some path" "route g path" by blast
  moreover from this have "path \<noteq> []" by (simp add: route_def)
  ultimately show ?thesis by (simp add: search_ok_def)
qed

lemma bidirectional_loop_ok:
  assumes "bidir_inv g fq fv fp bq bv bp"
  shows "search_ok g (bidirectional_loop g fq fv fp bq bv bp steps)"
proof (rule bidirectional_loop_rule
    [where I = "\<lambda>fq fv fp bq bv bp steps. bidir_inv g fq fv fp bq bv bp"])
  show "bidir_inv g fq fv fp bq bv bp" by (rule assms)
next
  fix fv fp bv bp steps assume inv: "bidir_inv g [] fv fp [] bv bp"
  have "\<forall>ps. \<not> route g ps"
  proof
    fix ps
    show "\<not> route g ps"
      using inv unfolding bidir_inv_def side_inv_def by (intro closed_no_route [of g fv]) auto
  qed
  then show "search_ok g (Some (steps, []))" by (simp add: search_ok_def)
next
  fix cur fq fv fp bq bv bp steps
  assume inv: "bidir_inv g (cur # fq) fv fp bq bv bp" and c: "cur \<in> bv"
  have "cur \<in> fv" using inv by (simp add: bidir_inv_def side_inv_def)
  then show "search_ok g (map_option (Pair (steps @ [make_step cur (fq @ bq) (fv \<union> bv)]))
      (merge_paths fp bp cur))"
    using inv c by (intro bidir_inv_meet)
next
  fix cur fq fv fp bq bv bp steps
  assume inv: "bidir_inv g fq fv fp (cur # bq) bv bp" and c: "cur \<in> fv"
  have "cur \<in> bv" using inv by (simp add: bidir_inv_def side_inv_def)
  then show "search_ok g (map_option (Pair (steps @ [make_step cur (fq @ bq) (fv \<union> bv)]))
      (merge_paths fp bp cur))"
    using inv c by (intro bidir_inv_meet)
next
  fix cur fq fv fp bq bv bp steps fq2 fv2 fp2
  assume inv: "bidir_inv g (cur # fq) fv fp bq bv bp" and c: "cur \<notin> bv"
    and e: "bidir_expand cur (get_neighbors g cur) (fq, fv, fp) = (fq2, fv2, fp2)"
  have s: "side_inv g (start g) (cur # fq) fv fp" using inv by (simp add: bidir_inv_def)
  have "goal g \<in> bv" using inv by (simp add: bidir_inv_def side_inv_def)
  then have "cur \<noteq> goal g" using c by blast
  moreover have "goal g \<notin> fv - set (cur # fq)" using inv by (simp add: bidir_inv_def)
  ultimately have "goal g \<notin> fv2 - set fq2" using side_inv_expand(4) [OF s e] by blast
  then show "bidir_inv g fq2 fv2 fp2 bq bv bp"
    using inv side_inv_expand(1) [OF s e] by (simp add: bidir_inv_def)
next
  fix cur fq fv fp bq bv bp steps bq2 bv2 bp2
  assume inv: "bidir_inv g fq fv fp (cur # bq) bv bp"
    and e: "bidir_expand cur (get_neighbors g cur) (bq, bv, bp) = (bq2, bv2, bp2)"
  have s: "side_inv g (goal g) (cur # bq) bv bp" using inv by (simp add: bidir_inv_def)
  have "bv2 \<subseteq> cells g" using side_inv_expand(3) [OF s e] inv by (auto simp: bidir_inv_def)
  then show "bidir_inv g fq fv fp bq2 bv2 bp2"
    using inv side_inv_expand(1) [OF s e] by (simp add: bidir_inv_def)
qed

lemma bidirectional_ok:
  assumes "is_valid g (goal g)"
  shows "search_ok g (bidirectional g)"
  unfolding bidirectional_def
proof (rule bidirectional_loop_ok)
  have "side_inv g s [s] {s} [s \<mapsto> None]" for s
    by (auto simp: side_inv_def tree_init)
  then show "bidir_inv g [start g] {start g} [start g \<mapsto> None] [goal g] {goal g} [goal g \<mapsto> None]"
    using assms by (auto simp: bidir_inv_def cells_def)
qed

section \<open>Properties of the step trace\<close>

definition sizes_nondecreasing :: "step list \<Rightarrow> bool" where
  "sizes_nondecreasing steps \<longleftrightarrow> sorted (map (\<lambda>s. card (visited s)) steps)"

text \<open>\<open>popped_before seen steps\<close>: every snapshot holds only positions that were the
  current node of an earlier step (or are in \<open>seen\<close>).\<close>

fun popped_before :: "pos set \<Rightarrow> step list \<Rightarrow> bool" where
  "popped_before seen [] = True"
| "popped_before seen (s # ss) = (visited s \<subseteq> seen \<and> popped_before (insert (current s) seen) ss)"

text \<open>\<open>enqueued_before seen steps\<close>: every snapshot holds only positions that were the
  current node of that or an earlier step, or are in the frontier of that step.\<close>

fun enqueued_before :: "pos set \<Rightarrow> step list \<Rightarrow> bool" where
  "enqueued_before seen [] = True"
| "enqueued_before seen (s # ss) =
     (visited s \<subseteq> insert (current s) seen \<union> set (frontier s)
      \<and> enqueued_before (insert (current s) seen) ss)"

lemma popped_before_append:
  "popped_before seen (xs @ ys)
    \<longleftrightarrow> popped_before seen xs \<and> popped_before (seen \<union> current ` set xs) ys"
  by (induction xs arbitrary: seen) simp_all

lemma popped_before_mono: "popped_before seen xs \<Longrightarrow> seen \<subseteq> seen' \<Longrightarrow> popped_before seen' xs"
proof (induction xs arbitrary: seen seen')
  case Nil
  then show ?case by simp
next
  case (Cons s ss)
  have "popped_before (insert (current s) seen) ss" using Cons.prems(1) by simp
  moreover have "insert (current s) seen \<subseteq> insert (current s) seen'" using Cons.prems(2) by auto
  ultimately have "popped_before (insert (current s) seen') ss" by (rule Cons.IH)
  then show ?case using Cons.prems by auto
qed

lemma enqueued_before_append:
  "enqueued_before seen (xs @ ys)
    \<longleftrightarrow> enqueued_before seen xs \<and> enqueued_before (seen \<union> current ` set xs) ys"
  by (induction xs arbitrary: seen) simp_all

definition trace_inv :: "pos set \<Rightarrow> step list \<Rightarrow> bool" where
  "trace_inv vis steps \<longleftrightarrow>
     finite vis \<and> sizes_nondecreasing steps \<and> (\<forall>s\<in>set steps. card (visited s) \<le> card vis) \<and>
     popped_before {} steps \<and> vis \<subseteq> current ` set steps"

definition trace_ok :: "result \<Rightarrow> bool" where
  "trace_ok r \<longleftrightarrow> (\<forall>steps path. r = Some (steps, path)
     \<longrightarrow> sizes_nondecreasing steps \<and> popped_before {} steps)"

lemma trace_inv_step:
  assumes "trace_inv vis steps" and "vis' = vis \<or> vis' = insert cur vis"
  shows "trace_inv vis' (steps @ [make_step cur fr vis])"
proof -
  have fin: "finite vis" and le: "\<forall>s\<in>set steps. card (visited s) \<le> card vis"
    and sorted: "sorted (map (\<lambda>s. card (visited s)) steps)"
    and pb: "popped_before {} steps" and sub: "vis \<subseteq> current ` set steps"
    using assms(1) by (simp_all add: trace_inv_def sizes_nondecreasing_def)
  have c: "card vis \<le> card vis'" using assms(2) fin by (auto simp: card_insert_le)
  have "sizes_nondecreasing (steps @ [make_step cur fr vis])"
    using sorted le by (simp add: sizes_nondecreasing_def sorted_append make_step_def)
  moreover have "\<forall>s\<in>set (steps @ [make_step cur fr vis]). card (visited s) \<le> card vis'"
    using le c by (auto simp: make_step_def)
  moreover have "popped_before {} (steps @ [make_step cur fr vis])"
    using pb sub by (simp add: popped_before_append make_step_def)
  moreover have "vis' \<subseteq> current ` set (steps @ [make_step cur fr vis])"
    using sub assms(2) by (auto simp: make_step_def)
  moreover have "finite vis'" using fin assms(2) by auto
  ultimately show ?thesis by (simp add: trace_inv_def)
qed

lemma trace_inv_result:
  assumes "trace_inv vis steps"
  shows "trace_ok (map_option (Pair (steps @ [make_step cur fr vis])) r)"
proof -
  have "trace_inv vis (steps @ [make_step cur fr vis])"
    using assms by (rule trace_inv_step) simp
  then show ?thesis by (auto simp: trace_ok_def trace_inv_def)
qed

lemma trace_inv_done: "trace_inv vis steps \<Longrightarrow> trace_ok (Some (steps, []))"
  by (simp add: trace_ok_def trace_inv_def)

lemma trace_inv_init: "trace_inv {} []"
  by (simp add: trace_inv_def sizes_nondecreasing_def)

lemma bfs_trace: "trace_ok (bfs g)"
  unfolding bfs_def
  by (rule bfs_loop_rule [where I = "\<lambda>q iq cf vis steps. trace_inv vis steps"])
    (simp_all add: trace_inv_init trace_inv_done trace_inv_result trace_inv_step)

lemma dfs_trace: "trace_ok (dfs g)"
  unfolding dfs_def
  by (rule dfs_loop_rule [where I = "\<lambda>s cf vis steps. trace_inv vis steps"])
    (simp_all add: trace_inv_init trace_inv_done trace_inv_result trace_inv_step)

lemma dls_trace: "trace_ok (dls g limit)"
  unfolding dls_def
  by (rule dls_loop_rule [where I = "\<lambda>s cf vis steps. trace_inv vis steps"])
    (simp_all add: trace_inv_init trace_inv_done trace_inv_result trace_inv_step)

lemma ucs_trace: "trace_ok (ucs g)"
  unfolding ucs_def
  by (rule ucs_loop_rule [where I = "\<lambda>h cf cs n vis steps. trace_inv vis steps"])
    (simp_all add: trace_inv_init trace_inv_done trace_inv_result trace_inv_step)


subsection \<open>Bidirectional search\<close>

definition btrace_inv :: "pos set \<Rightarrow> pos set \<Rightarrow> step list \<Rightarrow> bool" where
  "btrace_inv V F steps \<longleftrightarrow>
     finite V \<and> sizes_nondecreasing steps \<and> (\<forall>s\<in>set steps. card (visited s) \<le> card V) \<and>
     enqueued_before {} steps \<and> V \<subseteq> current ` set steps \<union> F"

definition btrace_ok :: "result \<Rightarrow> bool" where
  "btrace_ok r \<longleftrightarrow> (\<forall>steps path. r = Some (steps, path)
     \<longrightarrow> sizes_nondecreasing steps \<and> enqueued_before {} steps)"

lemma btrace_inv_step:
  assumes "btrace_inv V (insert cur (set fr)) steps"
    and "V \<subseteq> V'" and "finite V'" and "V' \<subseteq> V \<union> F'" and "set fr \<subseteq> F'"
  shows "btrace_inv V' F' (steps @ [make_step cur fr V])"
proof -
  have fin: "finite V" and le: "\<forall>s\<in>set steps. card (visited s) \<le> card V"
    and sorted: "sorted (map (\<lambda>s. card (visited s)) steps)"
    and eb: "enqueued_before {} steps" and sub: "V \<subseteq> current ` set steps \<union> insert cur (set fr)"
    using assms(1) by (simp_all add: btrace_inv_def sizes_nondecreasing_def)
  have c: "card V \<le> card V'" using assms(2,3) by (rule card_mono [rotated])
  have "sizes_nondecreasing (steps @ [make_step cur fr V])"
    using sorted le by (simp add: sizes_nondecreasing_def sorted_append make_step_def)
  moreover have "\<forall>s\<in>set (steps @ [make_step cur fr V]). card (visited s) \<le> card V'"
    using le c by (auto simp: make_step_def)
  moreover have "enqueued_before {} (steps @ [make_step cur fr V])"
    using eb sub by (auto simp: enqueued_before_append make_step_def)
  moreover have "V' \<subseteq> current ` set (steps @ [make_step cur fr V]) \<union> F'"
    using sub assms(4,5) by (auto simp: make_step_def)
  ultimately show ?thesis using assms(3) by (simp add: btrace_inv_def)
qed

lemma btrace_inv_result:
  assumes "btrace_inv V (insert cur (set fr)) steps"
  shows "btrace_ok (map_option (Pair (steps @ [make_step cur fr V])) r)"
proof -
  have "finite V" using assms by (simp add: btrace_inv_def)
  then have "btrace_inv V (V \<union> set fr) (steps @ [make_step cur fr V])"
    using assms by (intro btrace_inv_step) auto
  then show ?thesis by (auto simp: btrace_ok_def btrace_inv_def)
qed

lemma bidir_expand_grows:
  "bidir_expand cur ns (q, v, p) = (q', v', p')
    \<Longrightarrow> set q \<subseteq> set q' \<and> v \<subseteq> v' \<and> v' \<subseteq> v \<union> set q' \<and> (finite v \<longrightarrow> finite v')"
proof (induction ns arbitrary: q v p)
  case Nil
  then show ?case by simp
next
  case (Cons a ns)
  obtain nbr w where a: "a = (nbr, w)" by (cases a)
  show ?case
  proof (cases "nbr \<notin> v")
    case True
    then have "bidir_expand cur ns (q @ [nbr], insert nbr v, p(nbr \<mapsto> Some cur)) = (q', v', p')"
      using Cons.prems a by simp
    from Cons.IH [OF this] show ?thesis by auto
  next
    case False
    then have "bidir_expand cur ns (q, v, p) = (q', v', p')"
      using Cons.prems a by simp
    from Cons.IH [OF this] show ?thesis by auto
  qed
qed

lemma bidirectional_trace: "btrace_ok (bidirectional g)"
  unfolding bidirectional_def
proof (rule bidirectional_loop_rule
    [where I = "\<lambda>fq fv fp bq bv bp steps. btrace_inv (fv \<union> bv) (set fq \<union> set bq) steps"])
  show "btrace_inv ({start g} \<union> {goal g}) (set [start g] \<union> set [goal g]) []"
    by (simp add: btrace_inv_def sizes_nondecreasing_def)
next
  fix fv fp bv bp steps
  assume "btrace_inv (fv \<union> bv) (set [] \<union> set []) steps"
  then show "btrace_ok (Some (steps, []))" by (simp add: btrace_ok_def btrace_inv_def)
next
  fix cur fq fv fp bq bv bp steps
  assume "btrace_inv (fv \<union> bv) (set (cur # fq) \<union> set bq) steps"
  then have "btrace_inv (fv \<union> bv) (insert cur (set (fq @ bq))) steps" by simp
  then show "btrace_ok (map_option (Pair (steps @ [make_step cur (fq @ bq) (fv \<union> bv)]))
      (merge_paths fp bp cur))"
    by (rule btrace_inv_result)
next
  fix cur fq fv fp bq bv bp steps
  assume "btrace_inv (fv \<union> bv) (set fq \<union> set (cur # bq)) steps"
  then have "btrace_inv (fv \<union> bv) (insert cur (set (fq @ bq))) steps" by simp
  then show "btrace_ok (map_option (Pair (steps @ [make_step cur (fq @ bq) (fv \<union> bv)]))
      (merge_paths fp bp cur))"
    by (rule btrace_inv_result)
next
  fix cur fq fv fp bq bv bp steps fq2 fv2 fp2
  assume inv: "btrace_inv (fv \<union> bv) (set (cur # fq) \<union> set bq) steps"
    and e: "bidir_expand cur (get_neighbors g cur) (fq, fv, fp) = (fq2, fv2, fp2)"
  have g: "set fq \<subseteq> set fq2" "fv \<subseteq> fv2" "fv2 \<subseteq> fv \<union> set fq2" "finite fv \<longrightarrow> finite fv2"
    using bidir_expand_grows [OF e] by simp_all
  have fin: "finite (fv \<union> bv)" using inv by (simp add: btrace_inv_def)
  have "btrace_inv (fv \<union> bv) (insert cur (set (fq @ bq))) steps" using inv by simp
  then show "btrace_inv (fv2 \<union> bv) (set fq2 \<union> set bq) (steps @ [make_step cur (fq @ bq) (fv \<union> bv)])"
    using g fin by (intro btrace_inv_step) auto
next
  fix cur fq fv fp bq bv bp steps bq2 bv2 bp2
  assume inv: "btrace_inv (fv \<union> bv) (set fq \<union> set (cur # bq)) steps"
    and e: "bidir_expand cur (get_neighbors g cur) (bq, bv, bp) = (bq2, bv2, bp2)"
  have g: "set bq \<subseteq> set bq2" "bv \<subseteq> bv2" "bv2 \<subseteq> bv \<union> set bq2" "finite bv \<longrightarrow> finite bv2"
    using bidir_expand_grows [OF e] by simp_all
  have fin: "finite (fv \<union> bv)" using inv by (simp add: btrace_inv_def)
  have "btrace_inv (fv \<union> bv) (insert cur (set (fq @ bq))) steps" using inv by simp
  then show "btrace_inv (fv \<union> bv2) (set fq \<union> set bq2) (steps @ [make_step cur (fq @ bq) (fv \<union> bv)])"
    using g fin by (intro btrace_inv_step) auto
qed

subsection \<open>Iterative deepening\<close>

text \<open>The trace of \<open>iddfs\<close> is the concatenation of the traces of its \<open>dls\<close> calls.\<close>

definition dls_segments :: "grid \<Rightarrow> step list \<Rightarrow> bool" where
  "dls_segments g steps \<longleftrightarrow> (\<exists>segs. steps = concat segs \<and>
     (\<forall>seg\<in>set segs. sizes_nondecreasing seg \<and> (\<exists>limit path. dls g limit = Some (seg, path))))"

lemma dls_segments_append:
  assumes "dls_segments g all_steps" and "dls g l = Some (steps, path)"
  shows "dls_segments g (all_steps @ steps)"
proof -
  obtain segs where segs: "all_steps = concat segs"
    "\<forall>seg\<in>set segs. sizes_nondecreasing seg \<and> (\<exists>limit path. dls g limit = Some (seg, path))"
    using assms(1) unfolding dls_segments_def by blast
  have "sizes_nondecreasing steps" using dls_trace [of g l] assms(2) by (simp add: trace_ok_def)
  then have "\<forall>seg\<in>set (segs @ [steps]).
      sizes_nondecreasing seg \<and> (\<exists>limit path. dls g limit = Some (seg, path))"
    using segs(2) assms(2) by auto
  moreover have "all_steps @ steps = concat (segs @ [steps])" using segs(1) by simp
  ultimately show ?thesis unfolding dls_segments_def by blast
qed

lemma popped_before_join:
  assumes "popped_before {} xs" and "popped_before {} ys"
  shows "popped_before {} (xs @ ys)"
  using assms popped_before_mono [of "{}" ys "current ` set xs"]
  by (simp add: popped_before_append)

definition iddfs_trace_ok :: "grid \<Rightarrow> result \<Rightarrow> bool" where
  "iddfs_trace_ok g r \<longleftrightarrow> (\<forall>steps path. r = Some (steps, path)
     \<longrightarrow> dls_segments g steps \<and> popped_before {} steps)"

lemma iddfs_trace: "iddfs_trace_ok g (iddfs g)"
  unfolding iddfs_def
proof (rule iddfs_loop_rule [where I = "\<lambda>all. dls_segments g all \<and> popped_before {} all"])
  show "dls_segments g [] \<and> popped_before {} []"
    unfolding dls_segments_def by (simp add: exI [of _ "[]"])
next
  fix all_steps assume "dls_segments g all_steps \<and> popped_before {} all_steps"
  then show "iddfs_trace_ok g (Some (all_steps, []))" by (simp add: iddfs_trace_ok_def)
next
  fix l all_steps
  show "iddfs_trace_ok g None" by (simp add: iddfs_trace_ok_def)
next
  fix l all_steps steps path
  assume inv: "dls_segments g all_steps \<and> popped_before {} all_steps"
    and d: "dls g l = Some (steps, path)"
  have "popped_before {} steps" using dls_trace [of g l] d by (simp add: trace_ok_def)
  then show "iddfs_trace_ok g (Some (all_steps @ steps, path))"
    using inv dls_segments_append [OF _ d, of all_steps]
    by (simp add: iddfs_trace_ok_def popped_before_join)
next
  fix l all_steps steps
  assume inv: "dls_segments g all_steps \<and> popped_before {} all_steps"
    and d: "dls g l = Some (steps, [])"
  have "popped_before {} steps" using dls_trace [of g l] d by (simp add: trace_ok_def)
  then show "dls_segments g (all_steps @ steps) \<and> popped_before {} (all_steps @ steps)"
    using inv dls_segments_append [OF _ d, of all_steps] by (simp add: popped_before_join)
qed

section \<open>The heap invariant\<close>

definition is_heap :: "'a::linorder list \<Rightarrow> bool" where
  "is_heap h \<longleftrightarrow> (\<forall>i. 0 < i \<and> i < length h \<longrightarrow> h ! ((i - 1) div 2) \<le> h ! i)"

lemma heap_root_min: "is_heap h \<Longrightarrow> i < length h \<Longrightarrow> h ! 0 \<le> h ! i"
proof (induction i rule: less_induct)
  case (less i)
  show ?case
  proof (cases "i = 0")
    case True
    then show ?thesis by simp
  next
    case False
    then have "(i - 1) div 2 < i" by auto
    then have "h ! 0 \<le> h ! ((i - 1) div 2)" using less by auto
    also have "\<dots> \<le> h ! i" using less.prems False by (auto simp: is_heap_def)
    finally show ?thesis .
  qed
qed

lemma heap_min: "is_heap h \<Longrightarrow> y \<in> set h \<Longrightarrow> h ! 0 \<le> y"
  by (metis heap_root_min in_set_conv_nth)

lemma is_heap_butlast: "is_heap h \<Longrightarrow> is_heap (butlast h)"
  unfolding is_heap_def
proof (intro allI impI)
  fix i assume h: "\<forall>i. 0 < i \<and> i < length h \<longrightarrow> h ! ((i - 1) div 2) \<le> h ! i"
    and i: "0 < i \<and> i < length (butlast h)"
  then have "h ! ((i - 1) div 2) \<le> h ! i" by auto
  moreover have "(i - 1) div 2 < length (butlast h)" using i by auto
  ultimately show "butlast h ! ((i - 1) div 2) \<le> butlast h ! i"
    using i by (simp add: nth_butlast)
qed

text \<open>\<open>siftdown_inv h pos x\<close>: the list is a heap except for the entry at \<open>pos\<close>, where
  \<open>x\<close> is still to be stored; the entries below \<open>pos\<close> are no smaller than \<open>x\<close> and than
  the entry above \<open>pos\<close>.\<close>

definition siftdown_inv :: "'a::linorder list \<Rightarrow> nat \<Rightarrow> 'a \<Rightarrow> bool" where
  "siftdown_inv h pos x \<longleftrightarrow> pos < length h \<and>
     (\<forall>i. 0 < i \<and> i < length h \<and> i \<noteq> pos \<longrightarrow> h ! ((i - 1) div 2) \<le> h ! i) \<and>
     (\<forall>i. 0 < i \<and> i < length h \<and> (i - 1) div 2 = pos
        \<longrightarrow> x \<le> h ! i \<and> (0 < pos \<longrightarrow> h ! ((pos - 1) div 2) \<le> h ! i))"

lemma siftdown_inv_up:
  assumes inv: "siftdown_inv h pos x" and pos: "0 < pos" and lt: "x < h ! ((pos - 1) div 2)"
  shows "siftdown_inv (h[pos := h ! ((pos - 1) div 2)]) ((pos - 1) div 2) x"
proof -
  let ?pp = "(pos - 1) div 2"
  let ?h = "h[pos := h ! ?pp]"
  have pp: "?pp < pos" using pos by auto
  have len: "pos < length h" using inv by (simp add: siftdown_inv_def)
  have e: "\<And>i. 0 < i \<Longrightarrow> i < length h \<Longrightarrow> i \<noteq> pos \<Longrightarrow> h ! ((i - 1) div 2) \<le> h ! i"
    using inv by (simp add: siftdown_inv_def)
  have c: "\<And>i. 0 < i \<Longrightarrow> i < length h \<Longrightarrow> (i - 1) div 2 = pos \<Longrightarrow> h ! ?pp \<le> h ! i"
    using inv pos by (simp add: siftdown_inv_def)
  have 1: "?h ! ((i - 1) div 2) \<le> ?h ! i" if "0 < i" "i < length ?h" "i \<noteq> ?pp" for i
  proof (cases "i = pos")
    case True
    then show ?thesis using pp len by simp
  next
    case False
    show ?thesis
    proof (cases "(i - 1) div 2 = pos")
      case True
      then show ?thesis using False that c [of i] len by simp
    next
      case np: False
      then show ?thesis using False that e [of i] by simp
    qed
  qed
  have 2: "x \<le> ?h ! i \<and> (0 < ?pp \<longrightarrow> ?h ! ((?pp - 1) div 2) \<le> ?h ! i)"
    if "0 < i" "i < length ?h" "(i - 1) div 2 = ?pp" for i
  proof -
    have ppp: "(?pp - 1) div 2 \<noteq> pos" using pp by auto
    have top: "0 < ?pp \<Longrightarrow> h ! ((?pp - 1) div 2) \<le> h ! ?pp"
      using e [of ?pp] pp len by simp
    show ?thesis
    proof (cases "i = pos")
      case True
      then show ?thesis using lt len top ppp by simp
    next
      case False
      then have "h ! ?pp \<le> h ! i" using e [of i] that by simp
      then show ?thesis using False lt top ppp by auto
    qed
  qed
  show ?thesis unfolding siftdown_inv_def
  proof (intro conjI allI impI)
    show "?pp < length ?h" using pp len by simp
  next
    fix i assume "0 < i \<and> i < length ?h \<and> i \<noteq> ?pp"
    then show "?h ! ((i - 1) div 2) \<le> ?h ! i" using 1 by blast
  next
    fix i assume "0 < i \<and> i < length ?h \<and> (i - 1) div 2 = ?pp"
    then show "x \<le> ?h ! i" using 2 by blast
  next
    fix i assume "0 < i \<and> i < length ?h \<and> (i - 1) div 2 = ?pp" "0 < ?pp"
    then show "?h ! ((?pp - 1) div 2) \<le> ?h ! i" using 2 by blast
  qed
qed

lemma siftdown_inv_place:
  assumes inv: "siftdown_inv h pos x" and stop: "pos = 0 \<or> \<not> x < h ! ((pos - 1) div 2)"
  shows "is_heap (h[pos := x])"
  unfolding is_heap_def
proof (intro allI impI)
  fix i assume i: "0 < i \<and> i < length (h[pos := x])"
  let ?pp = "(pos - 1) div 2"
  have len: "pos < length h" using inv by (simp add: siftdown_inv_def)
  show "h[pos := x] ! ((i - 1) div 2) \<le> h[pos := x] ! i"
  proof (cases "i = pos")
    case True
    then have "?pp < pos" "h ! ?pp \<le> x" using i stop by auto
    then show ?thesis using True len by simp
  next
    case False
    show ?thesis
    proof (cases "(i - 1) div 2 = pos")
      case True
      then have "x \<le> h ! i" using inv i by (simp add: siftdown_inv_def)
      then show ?thesis using True False len by simp
    next
      case np: False
      then have "h ! ((i - 1) div 2) \<le> h ! i" using inv i False by (simp add: siftdown_inv_def)
      then show ?thesis using np False by simp
    qed
  qed
qed

lemma siftdown_loop_heap:
  "siftdown_inv h pos x \<Longrightarrow> is_heap (siftdown_loop h 0 x pos)"
proof (induction h "0::nat" x pos rule: siftdown_loop.induct)
  case (1 heap newitem pos)
  show ?case
  proof (cases "0 < pos \<and> newitem < heap ! ((pos - 1) div 2)")
    case True
    then have "siftdown_inv (heap[pos := heap ! ((pos - 1) div 2)]) ((pos - 1) div 2) newitem"
      using "1.prems" by (intro siftdown_inv_up) simp_all
    then have "is_heap (siftdown_loop (heap[pos := heap ! ((pos - 1) div 2)]) 0 newitem ((pos - 1) div 2))"
      using True by (intro "1.hyps") simp_all
    then show ?thesis using True by (subst siftdown_loop.simps) (simp add: Let_def)
  next
    case False
    then have "is_heap (heap[pos := newitem])"
      using "1.prems" by (intro siftdown_inv_place) auto
    then show ?thesis using False by (subst siftdown_loop.simps) (auto simp: Let_def)
  qed
qed

lemma heappush_heap:
  assumes "is_heap h"
  shows "is_heap (heappush h x)"
proof -
  have "siftdown_inv (h @ [x]) (length h) x"
    unfolding siftdown_inv_def
  proof (intro conjI allI impI)
    fix i assume i: "0 < i \<and> i < length (h @ [x]) \<and> i \<noteq> length h"
    then have "i < length h" "(i - 1) div 2 < length h" by auto
    then show "(h @ [x]) ! ((i - 1) div 2) \<le> (h @ [x]) ! i"
      using assms i by (simp add: nth_append is_heap_def)
  next
    fix i assume "0 < i \<and> i < length (h @ [x]) \<and> (i - 1) div 2 = length h"
    then have False by auto
    then show "x \<le> (h @ [x]) ! i" ..
  next
    fix i assume "0 < i \<and> i < length (h @ [x]) \<and> (i - 1) div 2 = length h"
    then have False by auto
    then show "(h @ [x]) ! ((length h - 1) div 2) \<le> (h @ [x]) ! i" ..
  qed simp
  then have "is_heap (siftdown_loop (h @ [x]) 0 x (length h))" by (rule siftdown_loop_heap)
  then show ?thesis by (simp add: heappush_def siftdown_def)
qed


text \<open>\<open>siftup_inv h pos\<close>: the entry at \<open>pos\<close> is a hole; the list is a heap on all
  edges that do not touch the hole, and the entries below the hole are no smaller than
  the entry above it.\<close>

definition siftup_inv :: "'a::linorder list \<Rightarrow> nat \<Rightarrow> bool" where
  "siftup_inv h pos \<longleftrightarrow> pos < length h \<and>
     (\<forall>i. 0 < i \<and> i < length h \<and> i \<noteq> pos \<and> (i - 1) div 2 \<noteq> pos
        \<longrightarrow> h ! ((i - 1) div 2) \<le> h ! i) \<and>
     (\<forall>i. 0 < i \<and> i < length h \<and> (i - 1) div 2 = pos \<and> 0 < pos
        \<longrightarrow> h ! ((pos - 1) div 2) \<le> h ! i)"

lemma siftup_inv_down:
  assumes inv: "siftup_inv h pos" and c: "c < length h" "(c - 1) div 2 = pos" "0 < c"
    and least: "\<And>i. 0 < i \<Longrightarrow> i < length h \<Longrightarrow> (i - 1) div 2 = pos \<Longrightarrow> h ! c \<le> h ! i"
  shows "siftup_inv (h[pos := h ! c]) c"
proof -
  let ?h = "h[pos := h ! c]"
  have pc: "pos < c" using c by auto
  have len: "pos < length h" using inv by (simp add: siftup_inv_def)
  have e: "\<And>i. 0 < i \<Longrightarrow> i < length h \<Longrightarrow> i \<noteq> pos \<Longrightarrow> (i - 1) div 2 \<noteq> pos
      \<Longrightarrow> h ! ((i - 1) div 2) \<le> h ! i"
    using inv by (simp add: siftup_inv_def)
  have g: "\<And>i. 0 < i \<Longrightarrow> i < length h \<Longrightarrow> (i - 1) div 2 = pos \<Longrightarrow> 0 < pos
      \<Longrightarrow> h ! ((pos - 1) div 2) \<le> h ! i"
    using inv by (simp add: siftup_inv_def)
  have 1: "?h ! ((i - 1) div 2) \<le> ?h ! i"
    if "0 < i" "i < length ?h" "i \<noteq> c" "(i - 1) div 2 \<noteq> c" for i
  proof (cases "i = pos")
    case True
    then have "(pos - 1) div 2 \<noteq> pos" using that by auto
    moreover have "h ! ((pos - 1) div 2) \<le> h ! c" using g [of c] c True that by simp
    ultimately show ?thesis using True len by simp
  next
    case False
    show ?thesis
    proof (cases "(i - 1) div 2 = pos")
      case True
      then show ?thesis using False that least [of i] len by simp
    next
      case np: False
      then show ?thesis using False that e [of i] by simp
    qed
  qed
  have 2: "?h ! ((c - 1) div 2) \<le> ?h ! i"
    if "0 < i" "i < length ?h" "(i - 1) div 2 = c" for i
  proof -
    have "i \<noteq> pos" using that pc by auto
    moreover have "h ! c \<le> h ! i" using e [of i] that pc \<open>i \<noteq> pos\<close> by simp
    ultimately show ?thesis using c len by simp
  qed
  show ?thesis unfolding siftup_inv_def
  proof (intro conjI allI impI)
    show "c < length ?h" using c by simp
  next
    fix i assume "0 < i \<and> i < length ?h \<and> i \<noteq> c \<and> (i - 1) div 2 \<noteq> c"
    then show "?h ! ((i - 1) div 2) \<le> ?h ! i" using 1 by blast
  next
    fix i assume "0 < i \<and> i < length ?h \<and> (i - 1) div 2 = c \<and> 0 < c"
    then show "?h ! ((c - 1) div 2) \<le> ?h ! i" using 2 by blast
  qed
qed

lemma siftup_loop_inv:
  "siftup_inv h pos \<Longrightarrow> childpos = 2 * pos + 1 \<Longrightarrow> endpos = length h
    \<Longrightarrow> siftup_loop h endpos pos childpos = (h', p')
    \<Longrightarrow> siftup_inv h' p' \<and> length h' = length h \<and> length h \<le> 2 * p' + 1"
proof (induction h endpos pos childpos arbitrary: h' p' rule: siftup_loop.induct)
  case (1 heap endpos pos childpos)
  show ?case
  proof (cases "childpos < endpos")
    case True
    define c where "c = (if childpos + 1 < endpos \<and> \<not> heap ! childpos < heap ! (childpos + 1)
                         then childpos + 1 else childpos)"
    have c: "c < length heap" "(c - 1) div 2 = pos" "0 < c"
      using True "1.prems"(2,3) by (auto simp: c_def)
    have least: "heap ! c \<le> heap ! i" if "0 < i" "i < length heap" "(i - 1) div 2 = pos" for i
    proof -
      have "i = childpos \<or> i = childpos + 1" using that "1.prems"(2) by auto
      then show ?thesis using that "1.prems"(3) by (auto simp: c_def)
    qed
    have inv: "siftup_inv (heap[pos := heap ! c]) c"
      using "1.prems"(1) c least by (rule siftup_inv_down)
    have rec: "siftup_loop (heap[pos := heap ! c]) endpos c (2 * c + 1) = (h', p')"
      unfolding c_def using "1.prems"(4) True
      by (subst (asm) siftup_loop.simps) (auto simp: Let_def split: if_splits)
    have "siftup_inv h' p' \<and> length h' = length (heap[pos := heap ! c])
        \<and> length (heap[pos := heap ! c]) \<le> 2 * p' + 1"
      using "1.prems"(3) by (intro "1.IH" [OF True refl c_def inv refl _ rec]) simp
    then show ?thesis by simp
  next
    case False
    then have "h' = heap" "p' = pos"
      using "1.prems"(4) by (subst (asm) siftup_loop.simps; simp)+
    then show ?thesis using "1.prems" False by simp
  qed
qed

lemma siftup_heap:
  assumes "siftup_inv h 0"
  shows "is_heap (siftup h 0)"
proof -
  obtain h' p' where loop: "siftup_loop h (length h) 0 (2 * 0 + 1) = (h', p')"
    by (cases "siftup_loop h (length h) 0 (2 * 0 + 1)")
  have inv: "siftup_inv h' p'" and len: "length h' = length h" and leaf: "length h \<le> 2 * p' + 1"
    using siftup_loop_inv [OF assms refl refl loop] by simp_all
  let ?x = "h ! 0"
  have p': "p' < length h'" using inv by (simp add: siftup_inv_def)
  have "siftdown_inv (h'[p' := ?x]) p' ?x"
    unfolding siftdown_inv_def
  proof (intro conjI allI impI)
    show "p' < length (h'[p' := ?x])" using p' by simp
  next
    fix i assume i: "0 < i \<and> i < length (h'[p' := ?x]) \<and> i \<noteq> p'"
    then have np: "(i - 1) div 2 \<noteq> p'" using leaf len by auto
    then have "h' ! ((i - 1) div 2) \<le> h' ! i" using inv i by (simp add: siftup_inv_def)
    then show "h'[p' := ?x] ! ((i - 1) div 2) \<le> h'[p' := ?x] ! i" using i np by simp
  next
    fix i assume "0 < i \<and> i < length (h'[p' := ?x]) \<and> (i - 1) div 2 = p'"
    then have False using leaf len by auto
    then show "?x \<le> h'[p' := ?x] ! i" ..
  next
    fix i assume "0 < i \<and> i < length (h'[p' := ?x]) \<and> (i - 1) div 2 = p'"
    then have False using leaf len by auto
    then show "h'[p' := ?x] ! ((p' - 1) div 2) \<le> h'[p' := ?x] ! i" ..
  qed
  then have "is_heap (siftdown_loop (h'[p' := ?x]) 0 ?x p')" by (rule siftdown_loop_heap)
  moreover have "siftup h 0 = siftdown_loop (h'[p' := ?x]) 0 ?x p'"
    using loop p' by (simp add: siftup_def siftdown_def Let_def)
  ultimately show ?thesis by simp
qed

lemma heappop_heap:
  assumes "is_heap h" and "heappop h = Some (x, h')"
  shows "is_heap h'" and "\<forall>y\<in>set h. x \<le> y"
proof -
  have ne: "h \<noteq> []" using assms(2) by (auto simp: heappop_Nil)
  have x: "x = h ! 0"
  proof (cases "butlast h = []")
    case True
    then have "h = [last h]" using ne by (metis append_butlast_last_id append_Nil)
    then show ?thesis using assms(2) heappop_single [OF ne True] by (metis nth_Cons_0 option.inject prod.inject)
  next
    case False
    then have "0 < length (butlast h)" by (cases "butlast h") simp_all
    then show ?thesis using assms(2) heappop_many [OF False] by (simp add: nth_butlast)
  qed
  show "\<forall>y\<in>set h. x \<le> y" unfolding x using assms(1) heap_min by blast
  show "is_heap h'"
  proof (cases "butlast h = []")
    case True
    then have "h' = []" using assms(2) heappop_single [OF ne True] by simp
    then show ?thesis by (simp add: is_heap_def)
  next
    case False
    let ?h1 = "butlast h"
    have h': "h' = siftup (?h1[0 := last h]) 0"
      using assms(2) heappop_many [OF False] by simp
    have h1: "is_heap ?h1" using assms(1) by (rule is_heap_butlast)
    have len: "0 < length ?h1" using False by (cases "butlast h") simp_all
    have "siftup_inv (?h1[0 := last h]) 0"
      unfolding siftup_inv_def
    proof (intro conjI allI impI)
      show "0 < length (?h1[0 := last h])" using len by simp
    next
      fix i assume i: "0 < i \<and> i < length (?h1[0 := last h]) \<and> i \<noteq> 0 \<and> (i - 1) div 2 \<noteq> 0"
      then have "?h1 ! ((i - 1) div 2) \<le> ?h1 ! i" using h1 by (simp add: is_heap_def)
      then show "?h1[0 := last h] ! ((i - 1) div 2) \<le> ?h1[0 := last h] ! i" using i by simp
    next
      fix i assume "0 < i \<and> i < length (?h1[0 := last h]) \<and> (i - 1) div 2 = 0 \<and> (0::nat) < 0"
      then show "?h1[0 := last h] ! ((0 - 1) div 2) \<le> ?h1[0 := last h] ! i" by simp
    qed
    then show ?thesis unfolding h' by (rule siftup_heap)
  qed
qed

section \<open>Path costs\<close>

text \<open>The cost \<open>get_neighbors\<close> attaches to the move from \<open>p\<close> to \<open>q\<close>: the float 1.414
  when both coordinates change, the float 1.0 otherwise.\<close>

definition move_cost :: "pos \<Rightarrow> pos \<Rightarrow> cost" where
  "move_cost p q =
     (if fst p \<noteq> fst q \<and> snd p \<noteq> snd q then float_round 1.414 else float_round 1.0)"

text \<open>The accumulated cost of a path: the costs of its moves added up in floating point
  from the first move to the last, starting from 0, as \<open>ucs\<close> accumulates \<open>new_cost\<close>.\<close>

fun path_cost_from :: "cost \<Rightarrow> pos list \<Rightarrow> cost" where
  "path_cost_from a (p # q # ps) = path_cost_from (fadd a (move_cost p q)) (q # ps)"
| "path_cost_from a [p] = a"
| "path_cost_from a [] = a"

definition path_cost :: "pos list \<Rightarrow> cost" where
  "path_cost ps = path_cost_from 0 ps"

text \<open>A path from the start to \<open>x\<close> along neighbour transitions.\<close>

definition path_to :: "grid \<Rightarrow> pos \<Rightarrow> pos list \<Rightarrow> bool" where
  "path_to g x ps \<longleftrightarrow> ps \<noteq> [] \<and> hd ps = start g \<and> last ps = x \<and> valid_path g ps"

lemma route_path_to: "route g ps \<longleftrightarrow> path_to g (goal g) ps"
  by (simp add: route_def path_to_def)

lemma move_cost_pos: "0 < move_cost p q"
  by (simp add: move_cost_def float_round_gt0)

lemma neighbors_cost:
  assumes "(q, w) \<in> set (get_neighbors g p)"
  shows "w = move_cost p q"
proof -
  obtain r c where p: "p = (r, c)" by (cases p)
  have "(q, w) \<in> set (candidates p)" using assms by (simp add: get_neighbors_candidates)
  then show ?thesis unfolding p by (auto simp: candidates_def move_cost_def)
qed

lemma path_cost_from_snoc:
  "ps \<noteq> [] \<Longrightarrow> path_cost_from a (ps @ [x]) = fadd (path_cost_from a ps) (move_cost (last ps) x)"
  by (induction a ps rule: path_cost_from.induct) simp_all

lemma path_cost_snoc:
  "ps \<noteq> [] \<Longrightarrow> path_cost (ps @ [x]) = fadd (path_cost ps) (move_cost (last ps) x)"
  by (simp add: path_cost_def path_cost_from_snoc)

lemma path_cost_float: "0 \<le> path_cost ps \<and> float_round (path_cost ps) = path_cost ps"
proof (induction ps rule: rev_induct)
  case Nil
  show ?case by (simp add: path_cost_def float_round_def)
next
  case (snoc x ps)
  show ?case
  proof (cases "ps = []")
    case True
    then show ?thesis by (simp add: path_cost_def float_round_def)
  next
    case False
    have "0 < fadd (path_cost ps) (move_cost (last ps) x)"
      using snoc move_cost_pos by (intro fadd_pos) simp_all
    moreover have "float_round (fadd (path_cost ps) (move_cost (last ps) x))
        = fadd (path_cost ps) (move_cost (last ps) x)"
      using snoc move_cost_pos by (intro fadd_float) simp_all
    ultimately show ?thesis by (simp add: path_cost_snoc [OF False])
  qed
qed

lemma path_cost_nonneg: "0 \<le> path_cost ps"
  using path_cost_float by blast

lemma path_cost_grows: "ps \<noteq> [] \<Longrightarrow> path_cost ps \<le> path_cost (ps @ [x])"
  unfolding path_cost_snoc using path_cost_float [of ps] move_cost_pos by (intro fadd_ge) simp_all

lemma path_to_snoc:
  assumes "path_to g x (ps @ [x])" and "ps \<noteq> []"
  shows "path_to g (last ps) ps" and "step_ok g (last ps) x"
  using assms by (auto simp: path_to_def valid_path_def successively_append_iff)

section \<open>The parent tree of uniform-cost search\<close>

definition ucs_tree :: "grid \<Rightarrow> parents \<Rightarrow> (pos \<rightharpoonup> cost) \<Rightarrow> bool" where
  "ucs_tree g cf cs \<longleftrightarrow>
     tree g (start g) cf \<and> dom cf = dom cs \<and> cs (start g) = Some 0 \<and>
     (\<forall>x a. cs x = Some a \<longrightarrow> 0 \<le> a \<and> float_round a = a) \<and>
     (\<forall>x p. cf x = Some (Some p)
        \<longrightarrow> (\<exists>a b. cs p = Some a \<and> cs x = Some b \<and> fadd a (move_cost p x) \<le> b))"

lemma ucs_tree_chain_le:
  assumes c: "chain cf x ps" and t: "ucs_tree g cf cs"
  shows "\<exists>b. cs x = Some b \<and> path_cost (rev ps) \<le> b \<and> (\<forall>z\<in>set ps. \<exists>a. cs z = Some a \<and> a \<le> b)"
  using c t
proof (induction rule: chain.induct)
  case (root cf x)
  have "x \<in> dom cs" using root unfolding ucs_tree_def by blast
  then obtain b where b: "cs x = Some b" by blast
  then have "0 \<le> b" using root(2) unfolding ucs_tree_def by blast
  then show ?case using b by (simp add: path_cost_def)
next
  case (link cf x p ps)
  obtain a where a: "cs p = Some a" "path_cost (rev ps) \<le> a"
    "\<forall>z\<in>set ps. \<exists>a'. cs z = Some a' \<and> a' \<le> a"
    using link.IH [OF link.prems] by blast
  obtain a' b where b: "cs p = Some a'" "cs x = Some b" "fadd a' (move_cost p x) \<le> b"
    using link.hyps(1) link.prems unfolding ucs_tree_def by blast
  have ab: "fadd a (move_cost p x) \<le> b" using a(1) b by simp
  have af: "0 \<le> a" "float_round a = a" using a(1) link.prems unfolding ucs_tree_def by blast+
  have ne: "ps \<noteq> []" and hd: "hd ps = p" using chain_hd [OF link.hyps(2)] by auto
  have "path_cost (rev (x # ps)) = fadd (path_cost (rev ps)) (move_cost (last (rev ps)) x)"
    using ne by (simp add: path_cost_snoc)
  also have "\<dots> = fadd (path_cost (rev ps)) (move_cost p x)" using ne hd by (simp add: last_rev)
  also have "\<dots> \<le> fadd a (move_cost p x)"
    using path_cost_nonneg a(2) move_cost_pos by (rule fadd_mono)
  also have "\<dots> \<le> b" by (rule ab)
  finally have 1: "path_cost (rev (x # ps)) \<le> b" .
  have "a \<le> fadd a (move_cost p x)" using af move_cost_pos by (rule fadd_ge)
  then have "a \<le> b" using ab by simp
  then have 2: "\<forall>z\<in>set (x # ps). \<exists>a'. cs z = Some a' \<and> a' \<le> b"
    using a(3) b(2) by fastforce
  show ?case using b(2) 1 2 by blast
qed

lemma chain_avoid:
  assumes "chain cf x ps" and "n \<notin> set ps"
  shows "chain (cf(n \<mapsto> v)) x ps"
  using assms
proof (induction rule: chain.induct)
  case (root cf x)
  then have "x \<noteq> n" by auto
  then show ?case using root by (intro chain.root) simp
next
  case (link cf x p ps)
  then have "x \<noteq> n" by auto
  then show ?case using link by (intro chain.link [of _ _ p]) simp_all
qed

lemma chain_redirect:
  assumes "chain cf x ps" and "chain (cf(n \<mapsto> v)) n pn"
  shows "\<exists>ps'. chain (cf(n \<mapsto> v)) x ps'"
  using assms
proof (induction rule: chain.induct)
  case (root cf x)
  show ?case
  proof (cases "x = n")
    case True
    then show ?thesis using root by blast
  next
    case False
    then have "chain (cf(n \<mapsto> v)) x [x]" using root by (intro chain.root) simp
    then show ?thesis ..
  qed
next
  case (link cf x p ps)
  obtain ps' where ps': "chain (cf(n \<mapsto> v)) p ps'" using link by blast
  show ?case
  proof (cases "x = n")
    case True
    then show ?thesis using link by blast
  next
    case False
    then have "chain (cf(n \<mapsto> v)) x (x # ps')"
      using link.hyps(1) ps' by (intro chain.link [of _ _ p]) simp_all
    then show ?thesis ..
  qed
qed

lemma ucs_tree_relax:
  assumes t: "ucs_tree g cf cs" and cur: "cs cur = Some c"
    and ok: "step_ok g cur n" and w: "w = move_cost cur n"
    and better: "case cs n of None \<Rightarrow> True | Some b \<Rightarrow> fadd c w < b"
  shows "ucs_tree g (cf(n \<mapsto> Some cur)) (cs(n \<mapsto> fadd c w))"
proof -
  let ?cf = "cf(n \<mapsto> Some cur)"
  let ?cs = "cs(n \<mapsto> fadd c w)"
  have wpos: "0 < w" using w move_cost_pos by simp
  have tr: "tree g (start g) cf" and dom: "dom cf = dom cs" and s0: "cs (start g) = Some 0"
    and fl: "\<And>x a. cs x = Some a \<Longrightarrow> 0 \<le> a \<and> float_round a = a"
    and mono: "\<And>x p. cf x = Some (Some p)
        \<Longrightarrow> \<exists>a b. cs p = Some a \<and> cs x = Some b \<and> fadd a (move_cost p x) \<le> b"
    using t unfolding ucs_tree_def by blast+
  have c0: "0 \<le> c" and cf: "float_round c = c" using fl [OF cur] by simp_all
  have cw: "c \<le> fadd c w" using c0 cf wpos by (rule fadd_ge)
  have nw: "0 < fadd c w" using c0 wpos by (rule fadd_pos)
  have lower: "fadd c w < b" if "cs n = Some b" for b using better that by simp
  have n_cur: "n \<noteq> cur" using lower [of c] cur cw by auto
  have n_start: "n \<noteq> start g" using lower [of 0] s0 nw by auto
  have "cur \<in> dom cf" using cur dom by blast
  then obtain pc where pc: "chain cf cur pc" using tr unfolding tree_def by blast
  have "n \<notin> set pc"
  proof
    assume "n \<in> set pc"
    then obtain a' where "cs n = Some a'" "a' \<le> c"
      using ucs_tree_chain_le [OF pc t] cur by fastforce
    then show False using lower [of a'] cw by simp
  qed
  then have "chain ?cf cur pc" using pc by (intro chain_avoid)
  then have pn: "chain ?cf n (n # pc)" by (intro chain.link [of _ _ cur]) simp_all
  have "tree g (start g) ?cf"
    unfolding tree_def
  proof (intro conjI ballI allI impI)
    fix x assume x: "x \<in> dom ?cf"
    show "\<exists>ps. chain ?cf x ps"
    proof (cases "x = n")
      case True
      then show ?thesis using pn by blast
    next
      case False
      then have "x \<in> dom cf" using x by auto
      then obtain ps where "chain cf x ps" using tr unfolding tree_def by blast
      then show ?thesis using pn by (rule chain_redirect)
    qed
  next
    fix x assume "?cf x = Some None"
    then have "cf x = Some None" by (auto split: if_splits)
    then show "x = start g" using tr unfolding tree_def by blast
  next
    fix x p assume "?cf x = Some (Some p)"
    then have "(x = n \<and> p = cur) \<or> cf x = Some (Some p)" by (auto split: if_splits)
    then show "step_ok g p x" using tr ok unfolding tree_def by blast
  qed
  moreover have "dom ?cf = dom ?cs" using dom by auto
  moreover have "?cs (start g) = Some 0" using s0 n_start by simp
  moreover have "\<forall>x a'. ?cs x = Some a' \<longrightarrow> 0 \<le> a' \<and> float_round a' = a'"
  proof (intro allI impI)
    fix x a' assume x: "?cs x = Some a'"
    show "0 \<le> a' \<and> float_round a' = a'"
    proof (cases "x = n")
      case True
      then have "a' = fadd c w" using x by simp
      then show ?thesis using nw fadd_float [OF c0 wpos] by simp
    next
      case False
      then show ?thesis using x fl by simp
    qed
  qed
  moreover have "\<forall>x p. ?cf x = Some (Some p)
      \<longrightarrow> (\<exists>a' b. ?cs p = Some a' \<and> ?cs x = Some b \<and> fadd a' (move_cost p x) \<le> b)"
  proof (intro allI impI)
    fix x p assume xp: "?cf x = Some (Some p)"
    show "\<exists>a' b. ?cs p = Some a' \<and> ?cs x = Some b \<and> fadd a' (move_cost p x) \<le> b"
    proof (cases "x = n")
      case True
      then have "p = cur" using xp by simp
      then show ?thesis using True cur n_cur w by simp
    next
      case False
      then have "cf x = Some (Some p)" using xp by simp
      then obtain a' b where ab: "cs p = Some a'" "cs x = Some b" "fadd a' (move_cost p x) \<le> b"
        using mono by blast
      show ?thesis
      proof (cases "p = n")
        case True
        then have "fadd c w \<le> a'" using lower [of a'] ab(1) by simp
        then have "fadd (fadd c w) (move_cost p x) \<le> fadd a' (move_cost p x)"
          using nw move_cost_pos by (intro fadd_mono) simp_all
        then show ?thesis using True False ab by simp
      next
        case np: False
        then show ?thesis using False ab by simp
      qed
    qed
  qed
  ultimately show ?thesis unfolding ucs_tree_def by blast
qed


section \<open>Optimality of uniform-cost search\<close>

definition ucs_heap :: "entry list \<Rightarrow> (pos \<rightharpoonup> cost) \<Rightarrow> pos set \<Rightarrow> bool" where
  "ucs_heap heap cs vis \<longleftrightarrow> is_heap heap \<and>
     (\<forall>e\<in>set heap. \<exists>a. cs (entry_pos e) = Some a \<and> a \<le> fst e) \<and>
     (\<forall>x a. cs x = Some a \<longrightarrow> x \<notin> vis \<longrightarrow> (\<exists>n. (a, n, x) \<in> set heap)) \<and>
     (\<forall>v\<in>vis. \<forall>e\<in>set heap. \<exists>a. cs v = Some a \<and> a \<le> fst e)"

definition ucs_opt :: "grid \<Rightarrow> (pos \<rightharpoonup> cost) \<Rightarrow> pos set \<Rightarrow> bool" where
  "ucs_opt g cs vis \<longleftrightarrow> vis \<subseteq> dom cs \<and> goal g \<notin> vis \<and>
     (\<forall>v\<in>vis. \<forall>ps. path_to g v ps \<longrightarrow> (\<exists>a. cs v = Some a \<and> a \<le> path_cost ps)) \<and>
     (\<forall>v\<in>vis. \<forall>y. step_ok g v y
        \<longrightarrow> (\<exists>a b. cs v = Some a \<and> cs y = Some b \<and> b \<le> fadd a (move_cost v y)))"

definition ucs_inv :: "grid \<Rightarrow> entry list \<Rightarrow> parents \<Rightarrow> (pos \<rightharpoonup> cost) \<Rightarrow> pos set \<Rightarrow> bool" where
  "ucs_inv g heap cf cs vis \<longleftrightarrow> ucs_tree g cf cs \<and> ucs_heap heap cs vis \<and> ucs_opt g cs vis"

lemma set_heappush: "set (heappush heap e) = insert e (set heap)"
  using heappush_mset [of heap e] by (metis set_mset_add_mset_insert set_mset_mset)

lemma ucs_relax_mono:
  "ucs_relax c cur ns (h, cf, cs, n) = (h', cf', cs', n')
    \<Longrightarrow> (\<forall>x a. cs x = Some a \<longrightarrow> (\<exists>b. cs' x = Some b \<and> b \<le> a))
      \<and> (\<forall>e\<in>set ns. \<exists>b. cs' (fst e) = Some b \<and> b \<le> fadd c (snd e))"
proof (induction ns arbitrary: h cf cs n)
  case Nil
  then show ?case by simp
next
  case (Cons e ns)
  obtain nbr w where e: "e = (nbr, w)" by (cases e)
  show ?case
  proof (cases "case cs nbr of None \<Rightarrow> True | Some b \<Rightarrow> fadd c w < b")
    case True
    let ?cs = "cs(nbr \<mapsto> fadd c w)"
    have "ucs_relax c cur ns (heappush h (fadd c w, n + 1, nbr), cf(nbr \<mapsto> Some cur), ?cs, n + 1)
        = (h', cf', cs', n')"
      using Cons.prems True e by (simp add: Let_def)
    from Cons.IH [OF this]
    have ih: "\<And>x a. ?cs x = Some a \<Longrightarrow> \<exists>b. cs' x = Some b \<and> b \<le> a"
      and cov: "\<forall>e\<in>set ns. \<exists>b. cs' (fst e) = Some b \<and> b \<le> fadd c (snd e)"
      by blast+
    have 1: "\<exists>b. cs' x = Some b \<and> b \<le> a" if "cs x = Some a" for x a
    proof (cases "x = nbr")
      case True
      then have "fadd c w < a" using \<open>case cs nbr of None \<Rightarrow> True | Some b \<Rightarrow> fadd c w < b\<close> that by simp
      moreover obtain b where "cs' nbr = Some b" "b \<le> fadd c w" using ih [of nbr "fadd c w"] by auto
      ultimately show ?thesis using True by auto
    next
      case False
      then show ?thesis using ih [of x a] that by simp
    qed
    have 2: "\<exists>b. cs' nbr = Some b \<and> b \<le> fadd c w" using ih [of nbr "fadd c w"] by simp
    show ?thesis using 1 2 cov e by auto
  next
    case False
    then obtain b0 where b0: "cs nbr = Some b0" "b0 \<le> fadd c w"
      by (cases "cs nbr") auto
    have "ucs_relax c cur ns (h, cf, cs, n) = (h', cf', cs', n')"
      using Cons.prems False e by (simp add: Let_def)
    from Cons.IH [OF this]
    have ih: "\<And>x a. cs x = Some a \<Longrightarrow> \<exists>b. cs' x = Some b \<and> b \<le> a"
      and cov: "\<forall>e\<in>set ns. \<exists>b. cs' (fst e) = Some b \<and> b \<le> fadd c (snd e)"
      by blast+
    have "\<exists>b. cs' nbr = Some b \<and> b \<le> fadd c w" using ih [OF b0(1)] b0(2) by auto
    then show ?thesis using ih cov e by auto
  qed
qed

definition ucs_mid :: "grid \<Rightarrow> cost \<Rightarrow> pos \<Rightarrow> pos set \<Rightarrow> (pos \<rightharpoonup> cost)
    \<Rightarrow> entry list \<times> parents \<times> (pos \<rightharpoonup> cost) \<times> nat \<Rightarrow> bool" where
  "ucs_mid g c cur V cs0 st \<longleftrightarrow> (case st of (heap, cf, cs, counter) \<Rightarrow>
     ucs_tree g cf cs \<and> is_heap heap \<and>
     (\<forall>e\<in>set heap. \<exists>a. cs (entry_pos e) = Some a \<and> a \<le> fst e) \<and>
     (\<forall>x a. cs x = Some a \<longrightarrow> x \<notin> V \<longrightarrow> (\<exists>n. (a, n, x) \<in> set heap)) \<and>
     (\<forall>e\<in>set heap. c \<le> fst e) \<and> (\<forall>v\<in>V. cs v = cs0 v))"

lemma ucs_relax_mid:
  assumes m: "ucs_mid g c cur V cs0 (heap, cf, cs, counter)"
    and V: "\<forall>v\<in>V. \<exists>a. cs0 v = Some a \<and> a \<le> c" and cur: "cur \<in> V"
    and cc: "cs0 cur = Some c"
  shows "ucs_mid g c cur V cs0 (ucs_relax c cur (get_neighbors g cur) (heap, cf, cs, counter))"
  using m
proof (rule ucs_relax_rule)
  fix nbr w heap cf cs counter
  assume m: "ucs_mid g c cur V cs0 (heap, cf, cs, counter)"
    and n: "(nbr, w) \<in> set (get_neighbors g cur)"
    and better: "case cs nbr of None \<Rightarrow> True | Some b \<Rightarrow> fadd c w < b"
  let ?e = "(fadd c w, counter + 1, nbr)"
  let ?cs = "cs(nbr \<mapsto> fadd c w)"
  have t: "ucs_tree g cf cs" and hp: "is_heap heap"
    and G: "\<And>e. e \<in> set heap \<Longrightarrow> \<exists>a. cs (entry_pos e) = Some a \<and> a \<le> fst e"
    and D: "\<And>x a. cs x = Some a \<Longrightarrow> x \<notin> V \<Longrightarrow> \<exists>n. (a, n, x) \<in> set heap"
    and L: "\<And>e. e \<in> set heap \<Longrightarrow> c \<le> fst e"
    and Fz: "\<And>v. v \<in> V \<Longrightarrow> cs v = cs0 v"
    using m unfolding ucs_mid_def by auto
  have w: "w = move_cost cur nbr" using n by (rule neighbors_cost)
  have wpos: "0 < w" using w move_cost_pos by simp
  have lower: "fadd c w < b" if "cs nbr = Some b" for b using better that by simp
  have ccur: "cs cur = Some c" using cc Fz [OF cur] by simp
  have "0 \<le> c \<and> float_round c = c" using t ccur unfolding ucs_tree_def by blast
  then have cw: "c \<le> fadd c w" using wpos by (intro fadd_ge) simp_all
  have nV: "nbr \<notin> V"
  proof
    assume "nbr \<in> V"
    then obtain b where "cs0 nbr = Some b" "b \<le> c" using V by blast
    then have "cs nbr = Some b" "b \<le> c" using Fz [OF \<open>nbr \<in> V\<close>] by simp_all
    then show False using lower [of b] cw by simp
  qed
  have "ucs_tree g (cf(nbr \<mapsto> Some cur)) ?cs"
    using t ccur step_ok_neighbors [OF n] w better by (rule ucs_tree_relax)
  moreover have "is_heap (heappush heap ?e)" using hp by (rule heappush_heap)
  moreover have "\<forall>e\<in>set (heappush heap ?e). \<exists>a. ?cs (entry_pos e) = Some a \<and> a \<le> fst e"
  proof
    fix e assume "e \<in> set (heappush heap ?e)"
    then consider "e = ?e" | "e \<in> set heap" by (auto simp: set_heappush)
    then show "\<exists>a. ?cs (entry_pos e) = Some a \<and> a \<le> fst e"
    proof cases
      case 1
      then show ?thesis by (simp add: entry_pos_def)
    next
      case 2
      then obtain a' where a': "cs (entry_pos e) = Some a'" "a' \<le> fst e" using G by blast
      show ?thesis
      proof (cases "entry_pos e = nbr")
        case True
        then have "fadd c w < a'" using lower a'(1) by simp
        then show ?thesis using True a'(2) by simp
      next
        case False
        then show ?thesis using a' by simp
      qed
    qed
  qed
  moreover have "\<forall>x a. ?cs x = Some a \<longrightarrow> x \<notin> V \<longrightarrow> (\<exists>n. (a, n, x) \<in> set (heappush heap ?e))"
  proof (intro allI impI)
    fix x a' assume x: "?cs x = Some a'" "x \<notin> V"
    show "\<exists>n. (a', n, x) \<in> set (heappush heap ?e)"
    proof (cases "x = nbr")
      case True
      then have "a' = fadd c w" using x(1) by simp
      then show ?thesis using True by (auto simp: set_heappush)
    next
      case False
      then have "cs x = Some a'" using x(1) by simp
      then obtain n where "(a', n, x) \<in> set heap" using D x(2) by blast
      then show ?thesis by (auto simp: set_heappush)
    qed
  qed
  moreover have "\<forall>e\<in>set (heappush heap ?e). c \<le> fst e"
    using L cw by (auto simp: set_heappush)
  moreover have "\<forall>v\<in>V. ?cs v = cs0 v" using Fz nV by auto
  ultimately show "ucs_mid g c cur V cs0
      (heappush heap ?e, cf(nbr \<mapsto> Some cur), ?cs, counter + 1)"
    unfolding ucs_mid_def by simp
qed



lemma ucs_lower:
  assumes o: "ucs_opt g cs vis" and s: "cs (start g) = Some 0"
    and nn: "\<forall>x a. cs x = Some a \<longrightarrow> 0 \<le> a"
  shows "path_to g v ps \<Longrightarrow> v \<notin> vis \<Longrightarrow> \<exists>x a. x \<notin> vis \<and> cs x = Some a \<and> a \<le> path_cost ps"
proof (induction ps arbitrary: v rule: rev_induct)
  case Nil
  then show ?case by (simp add: path_to_def)
next
  case (snoc y qs)
  have y: "y = v" using snoc.prems(1) by (simp add: path_to_def)
  show ?case
  proof (cases "qs = []")
    case True
    then have "v = start g" using snoc.prems(1) y by (simp add: path_to_def)
    then have "start g \<notin> vis" "cs (start g) = Some 0" "0 \<le> path_cost (qs @ [y])"
      using s snoc.prems(2) True by (simp_all add: path_cost_def)
    then show ?thesis by blast
  next
    case False
    let ?u = "last qs"
    have pu: "path_to g ?u qs" and st: "step_ok g ?u v"
      using path_to_snoc [OF _ False, of g v] snoc.prems(1) y by auto
    have pc: "path_cost (qs @ [y]) = fadd (path_cost qs) (move_cost ?u v)"
      using path_cost_snoc [OF False] y by simp
    show ?thesis
    proof (cases "?u \<in> vis")
      case True
      obtain a where a: "cs ?u = Some a" "a \<le> path_cost qs"
        using o True pu unfolding ucs_opt_def by blast
      obtain a' b where b: "cs ?u = Some a'" "cs v = Some b" "b \<le> fadd a' (move_cost ?u v)"
        using o True st unfolding ucs_opt_def by blast
      have a0: "0 \<le> a" using nn a(1) by blast
      have "fadd a (move_cost ?u v) \<le> fadd (path_cost qs) (move_cost ?u v)"
        using a0 a(2) move_cost_pos by (rule fadd_mono)
      then have "b \<le> path_cost (qs @ [y])" using a(1) b pc by simp
      then show ?thesis using b(2) snoc.prems(2) by blast
    next
      case False
      obtain x a where "x \<notin> vis" "cs x = Some a" "a \<le> path_cost qs"
        using snoc.IH [OF pu False] by blast
      moreover have "path_cost qs \<le> path_cost (qs @ [y])"
        using \<open>qs \<noteq> []\<close> by (rule path_cost_grows)
      ultimately show ?thesis by (meson order_trans)
    qed
  qed
qed

lemma entry_le_fst: "(e :: entry) \<le> e' \<Longrightarrow> fst e \<le> fst e'"
  by (auto simp: less_eq_prod_def)

lemma ucs_pop:
  assumes h: "ucs_heap heap cs vis" and pop: "heappop heap = Some ((c, n, cur), heap1)"
  shows "set heap = insert (c, n, cur) (set heap1)" and "is_heap heap1"
    and "\<forall>e\<in>set heap. c \<le> fst e" and "cur \<notin> vis \<Longrightarrow> cs cur = Some c"
proof -
  have ih: "is_heap heap" using h unfolding ucs_heap_def by blast
  show s: "set heap = insert (c, n, cur) (set heap1)" using pop by (rule heappop_entries)
  show "is_heap heap1" using ih pop by (rule heappop_heap)
  have m: "\<forall>y\<in>set heap. (c, n, cur) \<le> y" using ih pop by (rule heappop_heap)
  show l: "\<forall>e\<in>set heap. c \<le> fst e"
  proof
    fix e assume "e \<in> set heap"
    then have "(c, n, cur) \<le> e" using m by blast
    then show "c \<le> fst e" using entry_le_fst by fastforce
  qed
  show "cs cur = Some c" if nv: "cur \<notin> vis"
  proof -
    have "(c, n, cur) \<in> set heap" using s by simp
    then obtain a where a: "cs (entry_pos (c, n, cur)) = Some a" "a \<le> fst (c, n, cur)"
      using h unfolding ucs_heap_def by blast
    then have a': "cs cur = Some a" "a \<le> c" by (simp_all add: entry_pos_def)
    obtain k where "(a, k, cur) \<in> set heap" using h a'(1) nv unfolding ucs_heap_def by blast
    then have "c \<le> a" using l by fastforce
    then show ?thesis using a' by simp
  qed
qed

lemma ucs_inv_init: "ucs_inv g [(0, 0, start g)] [start g \<mapsto> None] [start g \<mapsto> 0] {}"
proof -
  have "ucs_tree g [start g \<mapsto> None] [start g \<mapsto> 0]"
    unfolding ucs_tree_def using tree_init [of g "start g"]
    by (auto simp: float_round_def split: if_splits)
  moreover have "ucs_heap [(0, 0, start g)] [start g \<mapsto> 0] {}"
    unfolding ucs_heap_def is_heap_def by (auto simp: entry_pos_def split: if_splits)
  moreover have "ucs_opt g [start g \<mapsto> 0] {}" unfolding ucs_opt_def by simp
  ultimately show ?thesis unfolding ucs_inv_def by simp
qed

lemma ucs_inv_done:
  assumes "ucs_inv g [] cf cs vis"
  shows "\<not> route g ps"
proof
  assume "route g ps"
  then have p: "path_to g (goal g) ps" by (simp add: route_path_to)
  have o: "ucs_opt g cs vis" and s: "cs (start g) = Some 0"
    and nn: "\<forall>x a. cs x = Some a \<longrightarrow> 0 \<le> a"
    using assms unfolding ucs_inv_def ucs_tree_def by blast+
  have "goal g \<notin> vis" using o unfolding ucs_opt_def by blast
  from ucs_lower [OF o s nn p this] obtain x a where "x \<notin> vis" "cs x = Some a" by blast
  have "ucs_heap [] cs vis" using assms unfolding ucs_inv_def by blast
  then have "\<forall>x a. cs x = Some a \<longrightarrow> x \<in> vis" unfolding ucs_heap_def by simp
  then show False using \<open>x \<notin> vis\<close> \<open>cs x = Some a\<close> by blast
qed

lemma ucs_inv_found:
  assumes inv: "ucs_inv g heap cf cs vis" and pop: "heappop heap = Some ((c, n, goal g), heap1)"
  shows "\<exists>path. reconstruct_path cf (goal g) = Some path \<and> route g path
    \<and> (\<forall>ps. route g ps \<longrightarrow> path_cost path \<le> path_cost ps)"
proof -
  have t: "ucs_tree g cf cs" and h: "ucs_heap heap cs vis" and o: "ucs_opt g cs vis"
    using inv unfolding ucs_inv_def by blast+
  have tr: "tree g (start g) cf" and s: "cs (start g) = Some 0" and d: "dom cf = dom cs"
    and nn: "\<forall>x a. cs x = Some a \<longrightarrow> 0 \<le> a"
    using t unfolding ucs_tree_def by blast+
  have gv: "goal g \<notin> vis" using o unfolding ucs_opt_def by blast
  have cg: "cs (goal g) = Some c" using ucs_pop(4) [OF h pop gv] .
  then have "goal g \<in> dom cf" using d by blast
  then obtain qs where ch: "chain cf (goal g) qs" using tr unfolding tree_def by blast
  have rp: "reconstruct_path cf (goal g) = Some (rev qs)" using ch by (rule chain_reconstruct_path)
  obtain path where path: "reconstruct_path cf (goal g) = Some path" "path \<noteq> []"
    "hd path = start g" "last path = goal g" "valid_path g path"
    using tree_reconstruct_path [OF tr \<open>goal g \<in> dom cf\<close>] by blast
  have pq: "path = rev qs" using rp path(1) by simp
  have r: "route g path" using path by (simp add: route_def)
  have le: "path_cost path \<le> c" using ucs_tree_chain_le [OF ch t] cg pq by auto
  have "path_cost path \<le> path_cost ps" if "route g ps" for ps
  proof -
    have "path_to g (goal g) ps" using that by (simp add: route_path_to)
    from ucs_lower [OF o s nn this gv] obtain x a where x: "x \<notin> vis" "cs x = Some a" "a \<le> path_cost ps"
      by blast
    obtain k where "(a, k, x) \<in> set heap" using h x(1,2) unfolding ucs_heap_def by blast
    then have "c \<le> a" using ucs_pop(3) [OF h pop] by fastforce
    then show ?thesis using le x(3) by simp
  qed
  then show ?thesis using path(1) r by blast
qed

lemma ucs_inv_skip:
  assumes inv: "ucs_inv g heap cf cs vis" and pop: "heappop heap = Some ((c, n, cur), heap1)"
    and v: "cur \<in> vis"
  shows "ucs_inv g heap1 cf cs vis"
proof -
  have h: "ucs_heap heap cs vis" using inv unfolding ucs_inv_def by blast
  note p = ucs_pop [OF h pop]
  have sub: "set heap1 \<subseteq> set heap" using p(1) by auto
  have "ucs_heap heap1 cs vis"
    unfolding ucs_heap_def
  proof (intro conjI allI impI)
    show "is_heap heap1" by (rule p(2))
    show "\<forall>e\<in>set heap1. \<exists>a. cs (entry_pos e) = Some a \<and> a \<le> fst e"
      using h sub unfolding ucs_heap_def by blast
    show "\<forall>v\<in>vis. \<forall>e\<in>set heap1. \<exists>a. cs v = Some a \<and> a \<le> fst e"
      using h sub unfolding ucs_heap_def by blast
  next
    fix x a assume x: "cs x = Some a" "x \<notin> vis"
    then obtain k where k: "(a, k, x) \<in> set heap" using h unfolding ucs_heap_def by blast
    have "x \<noteq> cur" using x(2) v by auto
    then have "(a, k, x) \<in> set heap1" using k p(1) by auto
    then show "\<exists>n. (a, n, x) \<in> set heap1" ..
  qed
  then show ?thesis using inv unfolding ucs_inv_def by simp
qed



lemma ucs_inv_expand:
  assumes inv: "ucs_inv g heap cf cs vis" and pop: "heappop heap = Some ((c, n, cur), heap1)"
    and ng: "cur \<noteq> goal g" and nv: "cur \<notin> vis"
    and rel: "ucs_relax c cur (get_neighbors g cur) (heap1, cf, cs, counter)
      = (heap2, cf2, cs2, counter2)"
  shows "ucs_inv g heap2 cf2 cs2 (insert cur vis)"
proof -
  let ?V = "insert cur vis"
  have t: "ucs_tree g cf cs" and h: "ucs_heap heap cs vis" and o: "ucs_opt g cs vis"
    using inv unfolding ucs_inv_def by blast+
  have s: "cs (start g) = Some 0" and nn: "\<forall>x a. cs x = Some a \<longrightarrow> 0 \<le> a"
    using t unfolding ucs_tree_def by blast+
  have hG: "\<And>e. e \<in> set heap \<Longrightarrow> \<exists>a. cs (entry_pos e) = Some a \<and> a \<le> fst e"
    and hD: "\<And>x a. cs x = Some a \<Longrightarrow> x \<notin> vis \<Longrightarrow> \<exists>k. (a, k, x) \<in> set heap"
    and hF: "\<And>v e. v \<in> vis \<Longrightarrow> e \<in> set heap \<Longrightarrow> \<exists>a. cs v = Some a \<and> a \<le> fst e"
    using h unfolding ucs_heap_def by blast+
  have oB: "\<And>v ps. v \<in> vis \<Longrightarrow> path_to g v ps \<Longrightarrow> \<exists>a. cs v = Some a \<and> a \<le> path_cost ps"
    and oC: "\<And>v y. v \<in> vis \<Longrightarrow> step_ok g v y
      \<Longrightarrow> \<exists>a b. cs v = Some a \<and> cs y = Some b \<and> b \<le> fadd a (move_cost v y)"
    and og: "goal g \<notin> vis"
    using o unfolding ucs_opt_def by blast+
  note p = ucs_pop [OF h pop]
  have cc: "cs cur = Some c" using p(4) [OF nv] .
  have top: "(c, n, cur) \<in> set heap" using p(1) by simp
  have Vle: "\<forall>v\<in>?V. \<exists>a. cs v = Some a \<and> a \<le> c"
  proof
    fix v assume "v \<in> ?V"
    then consider "v = cur" | "v \<in> vis" by blast
    then show "\<exists>a. cs v = Some a \<and> a \<le> c"
    proof cases
      case 1
      then show ?thesis using cc by simp
    next
      case 2
      then show ?thesis using hF [OF 2 top] by simp
    qed
  qed
  have mid0: "ucs_mid g c cur ?V cs (heap1, cf, cs, counter)"
  proof -
    have "\<forall>e\<in>set heap1. \<exists>a. cs (entry_pos e) = Some a \<and> a \<le> fst e"
      using hG p(1) by blast
    moreover have "\<forall>x a. cs x = Some a \<longrightarrow> x \<notin> ?V \<longrightarrow> (\<exists>k. (a, k, x) \<in> set heap1)"
    proof (intro allI impI)
      fix x a assume x: "cs x = Some a" "x \<notin> ?V"
      then obtain k where "(a, k, x) \<in> set heap" using hD by blast
      moreover have "x \<noteq> cur" using x(2) by simp
      ultimately have "(a, k, x) \<in> set heap1" using p(1) by auto
      then show "\<exists>k. (a, k, x) \<in> set heap1" ..
    qed
    moreover have "\<forall>e\<in>set heap1. c \<le> fst e" using p(1,3) by blast
    ultimately show ?thesis using t p(2) unfolding ucs_mid_def by simp
  qed
  have "ucs_mid g c cur ?V cs (heap2, cf2, cs2, counter2)"
    using ucs_relax_mid [OF mid0 Vle _ cc] rel by simp
  then have t2: "ucs_tree g cf2 cs2" and h2: "is_heap heap2"
    and G2: "\<forall>e\<in>set heap2. \<exists>a. cs2 (entry_pos e) = Some a \<and> a \<le> fst e"
    and D2: "\<forall>x a. cs2 x = Some a \<longrightarrow> x \<notin> ?V \<longrightarrow> (\<exists>k. (a, k, x) \<in> set heap2)"
    and L2: "\<And>e. e \<in> set heap2 \<Longrightarrow> c \<le> fst e"
    and Fz: "\<And>v. v \<in> ?V \<Longrightarrow> cs2 v = cs v"
    unfolding ucs_mid_def by blast+
  have mono: "\<And>x a. cs x = Some a \<Longrightarrow> \<exists>b. cs2 x = Some b \<and> b \<le> a"
    and cov: "\<And>e. e \<in> set (get_neighbors g cur) \<Longrightarrow> \<exists>b. cs2 (fst e) = Some b \<and> b \<le> fadd c (snd e)"
    using ucs_relax_mono [OF rel] by blast+
  have F2: "\<forall>v\<in>?V. \<forall>e\<in>set heap2. \<exists>a. cs2 v = Some a \<and> a \<le> fst e"
  proof (intro ballI)
    fix v e assume v: "v \<in> ?V" and e: "e \<in> set heap2"
    obtain a where "cs v = Some a" "a \<le> c" using Vle v by blast
    then show "\<exists>a. cs2 v = Some a \<and> a \<le> fst e" using Fz [OF v] L2 [OF e] by auto
  qed
  have heap2: "ucs_heap heap2 cs2 ?V"
    unfolding ucs_heap_def using h2 G2 D2 F2 by blast
  have dom2: "?V \<subseteq> dom cs2"
  proof
    fix v assume v: "v \<in> ?V"
    then obtain a where "cs v = Some a" using Vle by blast
    then show "v \<in> dom cs2" using Fz [OF v] by auto
  qed
  have g2: "goal g \<notin> ?V" using og ng by simp
  have B2: "\<forall>v\<in>?V. \<forall>ps. path_to g v ps \<longrightarrow> (\<exists>a. cs2 v = Some a \<and> a \<le> path_cost ps)"
  proof (intro ballI allI impI)
    fix v ps assume v: "v \<in> ?V" and ps: "path_to g v ps"
    show "\<exists>a. cs2 v = Some a \<and> a \<le> path_cost ps"
    proof (cases "v \<in> vis")
      case True
      then show ?thesis using oB [OF True ps] Fz [OF v] by simp
    next
      case False
      then have vc: "v = cur" using v by simp
      obtain x a where x: "x \<notin> vis" "cs x = Some a" "a \<le> path_cost ps"
        using ucs_lower [OF o s nn ps False] by blast
      obtain k where "(a, k, x) \<in> set heap" using hD [OF x(2,1)] by blast
      then have "c \<le> a" using p(3) by fastforce
      then show ?thesis using x(3) cc Fz [OF v] vc by simp
    qed
  qed
  have C2: "\<forall>v\<in>?V. \<forall>y. step_ok g v y
      \<longrightarrow> (\<exists>a b. cs2 v = Some a \<and> cs2 y = Some b \<and> b \<le> fadd a (move_cost v y))"
  proof (intro ballI allI impI)
    fix v y assume v: "v \<in> ?V" and st: "step_ok g v y"
    show "\<exists>a b. cs2 v = Some a \<and> cs2 y = Some b \<and> b \<le> fadd a (move_cost v y)"
    proof (cases "v \<in> vis")
      case True
      obtain a b where ab: "cs v = Some a" "cs y = Some b" "b \<le> fadd a (move_cost v y)"
        using oC [OF True st] by blast
      obtain b' where "cs2 y = Some b'" "b' \<le> b" using mono [OF ab(2)] by blast
      then show ?thesis using ab Fz [OF v] by auto
    next
      case False
      then have vc: "v = cur" using v by simp
      obtain w where w: "(y, w) \<in> set (get_neighbors g cur)"
        using st unfolding step_ok_def vc by auto
      have "w = move_cost cur y" using w by (rule neighbors_cost)
      then obtain b where "cs2 y = Some b" "b \<le> fadd c (move_cost cur y)"
        using cov [OF w] by auto
      then show ?thesis using cc Fz [OF v] vc by simp
    qed
  qed
  have "ucs_opt g cs2 ?V" unfolding ucs_opt_def using dom2 g2 B2 C2 by blast
  then show ?thesis unfolding ucs_inv_def using t2 heap2 by blast
qed

text \<open>The result of a search is a normal return, the path is a route exactly when one
  exists, and no route has a smaller accumulated cost.\<close>

definition cheapest_ok :: "grid \<Rightarrow> result \<Rightarrow> bool" where
  "cheapest_ok g r \<longleftrightarrow> search_ok g r \<and>
     (\<forall>steps path ps. r = Some (steps, path) \<longrightarrow> route g ps \<longrightarrow> path_cost path \<le> path_cost ps)"

lemma ucs_loop_cheapest:
  assumes "ucs_inv g heap cf cs vis"
  shows "cheapest_ok g (ucs_loop g heap cf cs counter vis steps)"
proof (rule ucs_loop_rule [where I = "\<lambda>heap cf cs counter vis steps. ucs_inv g heap cf cs vis"
      and Q = "cheapest_ok g"])
  show "ucs_inv g heap cf cs vis" by (rule assms)
next
  fix cf cs counter vis steps
  assume "ucs_inv g [] cf cs vis"
  then have "\<forall>ps. \<not> route g ps" using ucs_inv_done by blast
  then show "cheapest_ok g (Some (steps, []))" by (simp add: cheapest_ok_def search_ok_def)
next
  fix heap c n cur heap1 cf cs counter vis steps
  assume inv: "ucs_inv g heap cf cs vis" and pop: "heappop heap = Some ((c, n, cur), heap1)"
    and cur: "cur = goal g"
  obtain path where path: "reconstruct_path cf (goal g) = Some path" "route g path"
    "\<forall>ps. route g ps \<longrightarrow> path_cost path \<le> path_cost ps"
    using ucs_inv_found [OF inv pop [unfolded cur]] by blast
  have "path \<noteq> []" using path(2) by (simp add: route_def)
  then show "cheapest_ok g (map_option (Pair (steps @ [make_step cur (map entry_pos heap1) vis]))
      (reconstruct_path cf cur))"
    using path unfolding cur by (simp add: cheapest_ok_def search_ok_def)
next
  fix heap c n cur heap1 cf cs counter vis steps
  assume "ucs_inv g heap cf cs vis" "heappop heap = Some ((c, n, cur), heap1)" "cur \<in> vis"
  then show "ucs_inv g heap1 cf cs vis" by (rule ucs_inv_skip)
next
  fix heap c n cur heap1 cf cs counter vis steps heap2 cf2 cs2 counter2
  assume "ucs_inv g heap cf cs vis" "heappop heap = Some ((c, n, cur), heap1)"
    "cur \<noteq> goal g" "cur \<notin> vis"
    "ucs_relax c cur (get_neighbors g cur) (heap1, cf, cs, counter) = (heap2, cf2, cs2, counter2)"
  then show "ucs_inv g heap2 cf2 cs2 (insert cur vis)" by (rule ucs_inv_expand)
qed

lemma ucs_cheapest: "cheapest_ok g (ucs g)"
  unfolding ucs_def by (rule ucs_loop_cheapest) (rule ucs_inv_init)

lemma ucs_ok: "search_ok g (ucs g)"
  using ucs_cheapest [of g] by (simp add: cheapest_ok_def)

section \<open>Breadth-first search enqueues a position at most once\<close>

text \<open>The frontier recorded by the last step of a trace: the queue as it was when the
  last position was popped.\<close>

definition final_frontier :: "step list \<Rightarrow> pos list" where
  "final_frontier steps = (if steps = [] then [] else frontier (last steps))"

definition once_inv :: "pos list \<Rightarrow> pos set \<Rightarrow> step list \<Rightarrow> bool" where
  "once_inv q vis steps \<longleftrightarrow>
     distinct (map current steps) \<and> current ` set steps = vis \<and>
     (\<forall>s\<in>set steps. current s \<notin> visited s) \<and> set (final_frontier steps) \<subseteq> set q"

definition once_ok :: "result \<Rightarrow> bool" where
  "once_ok r \<longleftrightarrow> (\<forall>steps path. r = Some (steps, path)
     \<longrightarrow> distinct (map current steps @ final_frontier steps)
       \<and> (\<forall>s\<in>set steps. current s \<notin> visited s))"

lemma once_inv_step:
  assumes o: "once_inv (cur # q) vis steps" and d: "distinct (cur # q)"
    and v: "set (cur # q) \<inter> vis = {}"
  shows "distinct (map current (steps @ [make_step cur q vis])
      @ final_frontier (steps @ [make_step cur q vis]))"
    and "\<forall>s\<in>set (steps @ [make_step cur q vis]). current s \<notin> visited s"
    and "set q \<subseteq> set q2 \<Longrightarrow> once_inv q2 (insert cur vis) (steps @ [make_step cur q vis])"
proof -
  let ?s = "make_step cur q vis"
  have ds: "distinct (map current steps)" and cv: "current ` set steps = vis"
    and nv: "\<forall>s\<in>set steps. current s \<notin> visited s"
    using o unfolding once_inv_def by blast+
  have ff: "final_frontier (steps @ [?s]) = q" by (simp add: final_frontier_def make_step_def)
  have cur: "cur \<notin> vis" and qv: "set q \<inter> vis = {}" using v by auto
  have cs: "current ?s = cur" "visited ?s = vis" by (simp_all add: make_step_def)
  have sm: "set (map current steps) = vis" using cv by simp
  show 1: "distinct (map current (steps @ [?s]) @ final_frontier (steps @ [?s]))"
    unfolding ff using ds d cur qv sm cs by auto
  show 2: "\<forall>s\<in>set (steps @ [?s]). current s \<notin> visited s"
    using nv cur cs by auto
  show "once_inv q2 (insert cur vis) (steps @ [?s])" if "set q \<subseteq> set q2"
    unfolding once_inv_def ff using 1 2 that cv cs unfolding ff by auto
qed

lemma bfs_expand_keeps:
  "bfs_expand vis cur ns (q, iq, cf) = (q', iq', cf') \<Longrightarrow> set q \<subseteq> set q'"
proof (induction ns arbitrary: q iq cf)
  case Nil
  then show ?case by simp
next
  case (Cons a ns)
  obtain nbr w where a: "a = (nbr, w)" by (cases a)
  show ?case
  proof (cases "nbr \<notin> vis \<and> nbr \<notin> iq")
    case True
    then have "bfs_expand vis cur ns (q @ [nbr], insert nbr iq, cf(nbr \<mapsto> Some cur)) = (q', iq', cf')"
      using Cons.prems a by simp
    from Cons.IH [OF this] show ?thesis by simp
  next
    case False
    then have "bfs_expand vis cur ns (q, iq, cf) = (q', iq', cf')"
      using Cons.prems a by auto
    from Cons.IH [OF this] show ?thesis .
  qed
qed

lemma bfs_loop_once:
  assumes "bfs_inv g queue in_queue came_from vis" and "once_inv queue vis steps"
  shows "once_ok (bfs_loop g queue in_queue came_from vis steps)"
proof (rule bfs_loop_rule
    [where I = "\<lambda>q iq cf vis steps. bfs_inv g q iq cf vis \<and> once_inv q vis steps"])
  show "bfs_inv g queue in_queue came_from vis \<and> once_inv queue vis steps"
    using assms by simp
next
  fix iq cf vis steps
  assume "bfs_inv g [] iq cf vis \<and> once_inv [] vis steps"
  then have "distinct (map current steps)" "\<forall>s\<in>set steps. current s \<notin> visited s"
    "final_frontier steps = []"
    unfolding once_inv_def by simp_all
  then show "once_ok (Some (steps, []))" by (simp add: once_ok_def)
next
  fix cur q iq cf vis steps
  assume inv: "bfs_inv g (cur # q) iq cf vis \<and> once_inv (cur # q) vis steps"
  then have d: "distinct (cur # q)" and v: "set (cur # q) \<inter> vis = {}"
    unfolding bfs_inv_def by blast+
  note s = once_inv_step(1,2) [OF conjunct2 [OF inv] d v]
  show "once_ok (map_option (Pair (steps @ [make_step cur q vis])) (reconstruct_path cf cur))"
    unfolding once_ok_def using s by auto
next
  fix cur q iq cf vis steps
  assume inv: "bfs_inv g (cur # q) iq cf vis \<and> once_inv (cur # q) vis steps" and "cur \<in> vis"
  then have False unfolding bfs_inv_def by auto
  then show "bfs_inv g q (iq - {cur}) cf vis \<and> once_inv q vis (steps @ [make_step cur q vis])" ..
next
  fix cur q iq cf vis steps q2 iq2 cf2
  assume inv: "bfs_inv g (cur # q) iq cf vis \<and> once_inv (cur # q) vis steps"
    and ng: "cur \<noteq> goal g" and nv: "cur \<notin> vis"
    and e: "bfs_expand (insert cur vis) cur (get_neighbors g cur) (q, iq - {cur}, cf) = (q2, iq2, cf2)"
  have d: "distinct (cur # q)" and v: "set (cur # q) \<inter> vis = {}"
    using inv unfolding bfs_inv_def by blast+
  have "bfs_inv g q2 iq2 cf2 (insert cur vis)"
    using conjunct1 [OF inv] ng nv e by (rule bfs_inv_expand)
  moreover have "once_inv q2 (insert cur vis) (steps @ [make_step cur q vis])"
    using bfs_expand_keeps [OF e] by (rule once_inv_step(3) [OF conjunct2 [OF inv] d v])
  ultimately show "bfs_inv g q2 iq2 cf2 (insert cur vis)
      \<and> once_inv q2 (insert cur vis) (steps @ [make_step cur q vis])" ..
qed

lemma bfs_once: "once_ok (bfs g)"
  unfolding bfs_def
  by (rule bfs_loop_once) (auto simp: bfs_inv_def tree_init once_inv_def final_frontier_def)

section \<open>Breadth-first search returns a shortest path\<close>

text \<open>What one expansion does to the queue and to the parent dictionary: it appends new
  positions, which had no parent yet, and gives them the expanded position as parent.\<close>

lemma bfs_expand_struct:
  "bfs_expand vis cur ns (q, iq, cf) = (q', iq', cf') \<Longrightarrow> iq = set q \<Longrightarrow> dom cf = vis \<union> set q
    \<Longrightarrow> \<exists>new. q' = q @ new \<and> set new \<inter> dom cf = {} \<and>
          (\<forall>x. x \<notin> set new \<longrightarrow> cf' x = cf x) \<and> (\<forall>x\<in>set new. cf' x = Some (Some cur))"
proof (induction ns arbitrary: q iq cf)
  case Nil
  then have "q' = q @ []" "cf' = cf" by simp_all
  then show ?case by (intro exI [of _ "[]"]) simp
next
  case (Cons a ns)
  obtain nbr w where a: "a = (nbr, w)" by (cases a)
  show ?case
  proof (cases "nbr \<notin> vis \<and> nbr \<notin> iq")
    case True
    let ?cf = "cf(nbr \<mapsto> Some cur)"
    have e: "bfs_expand vis cur ns (q @ [nbr], insert nbr iq, ?cf) = (q', iq', cf')"
      using Cons.prems(1) a True by simp
    have 1: "insert nbr iq = set (q @ [nbr])" using Cons.prems(2) by simp
    have 2: "dom ?cf = vis \<union> set (q @ [nbr])" using Cons.prems(3) by auto
    obtain new where new: "q' = (q @ [nbr]) @ new" "set new \<inter> dom ?cf = {}"
      "\<forall>x. x \<notin> set new \<longrightarrow> cf' x = ?cf x" "\<forall>x\<in>set new. cf' x = Some (Some cur)"
      using Cons.IH [OF e 1 2] by blast
    have nd: "nbr \<notin> dom cf" using True Cons.prems(2,3) by auto
    have nn: "nbr \<notin> set new" using new(2) by auto
    have "q' = q @ (nbr # new)" using new(1) by simp
    moreover have "set (nbr # new) \<inter> dom cf = {}" using new(2) nd by auto
    moreover have "\<forall>x. x \<notin> set (nbr # new) \<longrightarrow> cf' x = cf x"
    proof (intro allI impI)
      fix x assume x: "x \<notin> set (nbr # new)"
      then have "x \<notin> set new" by simp
      then have "cf' x = ?cf x" using new(3) by blast
      then show "cf' x = cf x" using x by simp
    qed
    moreover have "\<forall>x\<in>set (nbr # new). cf' x = Some (Some cur)"
    proof
      fix x assume x: "x \<in> set (nbr # new)"
      show "cf' x = Some (Some cur)"
      proof (cases "x \<in> set new")
        case True
        then show ?thesis using new(4) by blast
      next
        case False
        then have "x = nbr" using x by simp
        moreover have "cf' nbr = ?cf nbr" using new(3) nn by blast
        ultimately show ?thesis by simp
      qed
    qed
    ultimately show ?thesis by blast
  next
    case False
    then have "bfs_expand vis cur ns (q, iq, cf) = (q', iq', cf')"
      using Cons.prems(1) a by auto
    from Cons.IH [OF this Cons.prems(2,3)] show ?thesis .
  qed
qed

text \<open>The invariant of the loop, with the depth \<open>d\<close> of every position in the parent
  tree: the queue is sorted by depth and spans at most two consecutive depths, the visited
  positions are no deeper than the queued ones, and the depth of a visited position is the
  length of a shortest path to it.\<close>

definition bfs_lvl :: "grid \<Rightarrow> pos list \<Rightarrow> parents \<Rightarrow> pos set \<Rightarrow> (pos \<Rightarrow> nat) \<Rightarrow> bool" where
  "bfs_lvl g q cf vis d \<longleftrightarrow>
     d (start g) = 0 \<and>
     (\<forall>x. cf x = Some None \<longrightarrow> d x = 0) \<and>
     (\<forall>x p. cf x = Some (Some p) \<longrightarrow> d x = Suc (d p)) \<and>
     sorted (map d q) \<and> (\<forall>x\<in>set q. \<forall>y\<in>set q. d y \<le> Suc (d x)) \<and>
     (\<forall>v\<in>vis. \<forall>x\<in>set q. d v \<le> d x) \<and>
     (\<forall>v\<in>vis. \<forall>ps. path_to g v ps \<longrightarrow> Suc (d v) \<le> length ps) \<and>
     (\<forall>v\<in>vis. \<forall>y. step_ok g v y \<longrightarrow> d y \<le> Suc (d v))"

lemma sorted_const:
  fixes f :: "'a \<Rightarrow> nat"
  shows "\<forall>x\<in>set xs. f x = c \<Longrightarrow> sorted (map f xs)"
  by (induction xs) simp_all

lemma chain_depth:
  assumes "chain cf x ps" and "\<forall>x. cf x = Some None \<longrightarrow> d x = 0"
    and "\<forall>x p. cf x = Some (Some p) \<longrightarrow> d x = Suc (d p)"
  shows "length ps = Suc (d x)"
  using assms
proof (induction rule: chain.induct)
  case (root cf x)
  then have "d x = 0" by blast
  then show ?case by simp
next
  case (link cf x p ps)
  then have "d x = Suc (d p)" "length ps = Suc (d p)" by blast+
  then show ?case by simp
qed

lemma bfs_lower:
  assumes inv: "bfs_inv g q iq cf vis" and lvl: "bfs_lvl g q cf vis d"
  shows "path_to g v ps \<Longrightarrow> v \<notin> vis \<Longrightarrow> \<exists>x\<in>set q. Suc (d x) \<le> length ps"
proof (induction ps arbitrary: v rule: rev_induct)
  case Nil
  then show ?case by (simp add: path_to_def)
next
  case (snoc y qs)
  have y: "y = v" using snoc.prems(1) by (simp add: path_to_def)
  have dom: "dom cf = vis \<union> set q" and st: "start g \<in> dom cf"
    and closed: "\<And>u p. u \<in> vis \<Longrightarrow> step_ok g u p \<Longrightarrow> p \<in> dom cf"
    using inv unfolding bfs_inv_def by blast+
  show ?case
  proof (cases "qs = []")
    case True
    then have "v = start g" using snoc.prems(1) y by (simp add: path_to_def)
    then have "v \<in> set q" "d v = 0" using st dom snoc.prems(2) lvl unfolding bfs_lvl_def by auto
    then have "v \<in> set q" "Suc (d v) \<le> length (qs @ [y])" by simp_all
    then show ?thesis by blast
  next
    case False
    let ?u = "last qs"
    have pu: "path_to g ?u qs" and so: "step_ok g ?u v"
      using path_to_snoc [OF _ False, of g v] snoc.prems(1) y by auto
    show ?thesis
    proof (cases "?u \<in> vis")
      case True
      have 1: "Suc (d ?u) \<le> length qs" using lvl True pu unfolding bfs_lvl_def by blast
      have 2: "d v \<le> Suc (d ?u)" using lvl True so unfolding bfs_lvl_def by blast
      have "v \<in> dom cf" using closed [OF True so] .
      then have "v \<in> set q" using dom snoc.prems(2) by auto
      moreover have "Suc (d v) \<le> length (qs @ [y])" using 1 2 by simp
      ultimately show ?thesis by blast
    next
      case False
      obtain x where x: "x \<in> set q" "Suc (d x) \<le> length qs"
        using snoc.IH [OF pu False] by blast
      have "Suc (d x) \<le> length (qs @ [y])" using x(2) by simp
      then show ?thesis using x(1) by blast
    qed
  qed
qed

lemma bfs_lvl_expand:
  assumes inv: "bfs_inv g (cur # q) iq cf vis" and lvl: "bfs_lvl g (cur # q) cf vis d"
    and nv: "cur \<notin> vis"
    and e: "bfs_expand (insert cur vis) cur (get_neighbors g cur) (q, iq - {cur}, cf) = (q2, iq2, cf2)"
  shows "\<exists>d2. bfs_lvl g q2 cf2 (insert cur vis) d2"
proof -
  define d2 where "d2 = (\<lambda>x. if x \<in> dom cf then d x else Suc (d cur))"
  have d_in: "d2 x = d x" if "x \<in> dom cf" for x using that by (simp add: d2_def)
  have d_out: "d2 x = Suc (d cur)" if "x \<notin> dom cf" for x using that by (simp add: d2_def)
  have dq: "distinct (cur # q)" and iq: "iq = set (cur # q)" and dom: "dom cf = vis \<union> set (cur # q)"
    and tr: "tree g (start g) cf" and st: "start g \<in> dom cf"
    and closed: "\<And>u p. u \<in> vis \<Longrightarrow> step_ok g u p \<Longrightarrow> p \<in> dom cf"
    using inv unfolding bfs_inv_def by blast+
  have d0: "d (start g) = 0" and r0: "\<And>x. cf x = Some None \<Longrightarrow> d x = 0"
    and pr: "\<And>x p. cf x = Some (Some p) \<Longrightarrow> d x = Suc (d p)"
    and srt: "sorted (map d (cur # q))"
    and span: "\<And>x y. x \<in> set (cur # q) \<Longrightarrow> y \<in> set (cur # q) \<Longrightarrow> d y \<le> Suc (d x)"
    and vq: "\<And>v x. v \<in> vis \<Longrightarrow> x \<in> set (cur # q) \<Longrightarrow> d v \<le> d x"
    and B: "\<And>v ps. v \<in> vis \<Longrightarrow> path_to g v ps \<Longrightarrow> Suc (d v) \<le> length ps"
    and C: "\<And>v y. v \<in> vis \<Longrightarrow> step_ok g v y \<Longrightarrow> d y \<le> Suc (d v)"
    using lvl unfolding bfs_lvl_def by blast+
  have 1: "iq - {cur} = set q" using dq iq by auto
  have 2: "dom cf = insert cur vis \<union> set q" using dom by auto
  obtain new where new: "q2 = q @ new" "set new \<inter> dom cf = {}"
    "\<And>x. x \<notin> set new \<Longrightarrow> cf2 x = cf x" "\<And>x. x \<in> set new \<Longrightarrow> cf2 x = Some (Some cur)"
    using bfs_expand_struct [OF e 1 2] by blast
  have cd: "cur \<in> dom cf" using dom by simp
  have qd: "x \<in> dom cf" if "x \<in> set q" for x using that dom by simp
  have vd: "v \<in> dom cf" if "v \<in> vis" for v using that dom by simp
  have nd: "x \<notin> dom cf" if "x \<in> set new" for x using that new(2) by blast
  have lo: "d cur \<le> d x" if "x \<in> set q" for x using srt that by simp
  have hi: "d x \<le> Suc (d cur)" if "x \<in> set q" for x using span [of cur x] that by simp
  have dq2: "d2 x = d x" if "x \<in> set q" for x using d_in [OF qd [OF that]] .
  have dn: "d2 x = Suc (d cur)" if "x \<in> set new" for x using d_out [OF nd [OF that]] .
  have dv: "d2 v = d v" if "v \<in> vis" for v using d_in [OF vd [OF that]] .
  have dc: "d2 cur = d cur" using d_in [OF cd] .
  have rng: "d cur \<le> d2 x \<and> d2 x \<le> Suc (d cur)" if "x \<in> set q2" for x
  proof (cases "x \<in> set q")
    case True
    then show ?thesis using lo [OF True] hi [OF True] dq2 [OF True] by simp
  next
    case False
    then have "x \<in> set new" using that unfolding new(1) by simp
    then show ?thesis using dn by simp
  qed
  have all_le: "d2 y \<le> Suc (d cur)" for y
  proof (cases "y \<in> dom cf")
    case True
    then consider "y \<in> vis" | "y \<in> set (cur # q)" using dom by blast
    then show ?thesis
    proof cases
      case 1
      then show ?thesis using vq [of y cur] d_in [OF True] by simp
    next
      case 2
      then show ?thesis using span [of cur y] d_in [OF True] by simp
    qed
  next
    case False
    then show ?thesis using d_out [OF False] by simp
  qed
  have "d2 (start g) = 0" using d_in [OF st] d0 by simp
  moreover have "\<forall>x. cf2 x = Some None \<longrightarrow> d2 x = 0"
  proof (intro allI impI)
    fix x assume x: "cf2 x = Some None"
    have "x \<notin> set new"
    proof
      assume "x \<in> set new"
      then have "cf2 x = Some (Some cur)" by (rule new(4))
      then show False using x by simp
    qed
    then have "cf2 x = cf x" by (rule new(3))
    then have c: "cf x = Some None" using x by simp
    then have "x \<in> dom cf" by blast
    then show "d2 x = 0" using r0 [OF c] d_in by simp
  qed
  moreover have "\<forall>x p. cf2 x = Some (Some p) \<longrightarrow> d2 x = Suc (d2 p)"
  proof (intro allI impI)
    fix x p assume x: "cf2 x = Some (Some p)"
    show "d2 x = Suc (d2 p)"
    proof (cases "x \<in> set new")
      case True
      have "cf2 x = Some (Some cur)" using True by (rule new(4))
      then have "p = cur" using x by simp
      then show ?thesis using dn [OF True] dc by simp
    next
      case False
      then have "cf2 x = cf x" by (rule new(3))
      then have c: "cf x = Some (Some p)" using x by simp
      then have xd: "x \<in> dom cf" by blast
      then obtain ps where "chain cf x ps" using tr unfolding tree_def by blast
      then have "chain cf p (tl ps)" using c by (cases rule: chain.cases) auto
      then have "p \<in> dom cf" using chain_dom chain_hd by (metis hd_in_set subsetD)
      then show ?thesis using pr [OF c] d_in [OF xd] d_in [of p] by simp
    qed
  qed
  moreover have "sorted (map d2 q2)"
  proof -
    have e: "map d2 q = map d q" by (rule map_cong [OF refl]) (rule dq2)
    have "sorted (map d q)" using srt by simp
    then have sq: "sorted (map d2 q)" by (simp only: e)
    have sn: "sorted (map d2 new)"
      by (rule sorted_const [where c = "Suc (d cur)"]) (use dn in blast)
    have cross: "\<forall>a\<in>set (map d2 q). \<forall>b\<in>set (map d2 new). a \<le> b"
    proof (intro ballI)
      fix a b assume "a \<in> set (map d2 q)" "b \<in> set (map d2 new)"
      then obtain x y where x: "x \<in> set q" "a = d2 x" and y: "y \<in> set new" "b = d2 y"
        by auto
      have "a = d x" using x dq2 [OF x(1)] by simp
      moreover have "b = Suc (d cur)" using y dn [OF y(1)] by simp
      ultimately show "a \<le> b" using hi [OF x(1)] by simp
    qed
    show ?thesis unfolding new(1) map_append sorted_append using sq sn cross by blast
  qed
  moreover have "\<forall>x\<in>set q2. \<forall>y\<in>set q2. d2 y \<le> Suc (d2 x)"
  proof (intro ballI)
    fix x y assume "x \<in> set q2" "y \<in> set q2"
    then have "d cur \<le> d2 x" "d2 y \<le> Suc (d cur)" using rng by blast+
    then show "d2 y \<le> Suc (d2 x)" by simp
  qed
  moreover have "\<forall>v\<in>insert cur vis. \<forall>x\<in>set q2. d2 v \<le> d2 x"
  proof (intro ballI)
    fix v x assume v: "v \<in> insert cur vis" and x: "x \<in> set q2"
    have "d2 v \<le> d cur"
    proof (cases "v = cur")
      case True
      then show ?thesis using dc by simp
    next
      case False
      then have "v \<in> vis" using v by simp
      then show ?thesis using vq [of v cur] dv by simp
    qed
    then show "d2 v \<le> d2 x" using rng [OF x] by simp
  qed
  moreover have "\<forall>v\<in>insert cur vis. \<forall>ps. path_to g v ps \<longrightarrow> Suc (d2 v) \<le> length ps"
  proof (intro ballI allI impI)
    fix v ps assume v: "v \<in> insert cur vis" and ps: "path_to g v ps"
    show "Suc (d2 v) \<le> length ps"
    proof (cases "v \<in> vis")
      case True
      then show ?thesis using B [OF True ps] dv by simp
    next
      case False
      then have vc: "v = cur" using v by simp
      obtain x where x: "x \<in> set (cur # q)" "Suc (d x) \<le> length ps"
        using bfs_lower [OF inv lvl ps False] by blast
      have "d cur \<le> d x"
      proof (cases "x = cur")
        case True
        then show ?thesis by simp
      next
        case False
        then have "x \<in> set q" using x(1) by simp
        then show ?thesis by (rule lo)
      qed
      then show ?thesis using x(2) vc dc by simp
    qed
  qed
  moreover have "\<forall>v\<in>insert cur vis. \<forall>y. step_ok g v y \<longrightarrow> d2 y \<le> Suc (d2 v)"
  proof (intro ballI allI impI)
    fix v y assume v: "v \<in> insert cur vis" and s: "step_ok g v y"
    show "d2 y \<le> Suc (d2 v)"
    proof (cases "v \<in> vis")
      case True
      have "y \<in> dom cf" using closed [OF True s] .
      then show ?thesis using C [OF True s] dv [OF True] d_in [of y] by simp
    next
      case False
      then have "v = cur" using v by simp
      then show ?thesis using all_le [of y] dc by simp
    qed
  qed
  ultimately have "bfs_lvl g q2 cf2 (insert cur vis) d2" unfolding bfs_lvl_def by blast
  then show ?thesis by blast
qed

text \<open>No route has fewer positions than the returned path.\<close>

definition shortest_ok :: "grid \<Rightarrow> result \<Rightarrow> bool" where
  "shortest_ok g r \<longleftrightarrow>
     (\<forall>steps path ps. r = Some (steps, path) \<longrightarrow> route g ps \<longrightarrow> length path \<le> length ps)"

lemma bfs_loop_shortest:
  assumes "bfs_inv g queue in_queue came_from vis" and "bfs_lvl g queue came_from vis d"
  shows "shortest_ok g (bfs_loop g queue in_queue came_from vis steps)"
proof (rule bfs_loop_rule
    [where I = "\<lambda>q iq cf vis steps. bfs_inv g q iq cf vis \<and> (\<exists>d. bfs_lvl g q cf vis d)"])
  show "bfs_inv g queue in_queue came_from vis \<and> (\<exists>d. bfs_lvl g queue came_from vis d)"
    using assms by blast
next
  fix iq cf vis steps
  show "shortest_ok g (Some (steps, []))" by (simp add: shortest_ok_def)
next
  fix cur q iq cf vis steps
  assume inv: "bfs_inv g (cur # q) iq cf vis \<and> (\<exists>d. bfs_lvl g (cur # q) cf vis d)"
    and c: "cur = goal g"
  then obtain d where lvl: "bfs_lvl g (cur # q) cf vis d" by blast
  have bi: "bfs_inv g (cur # q) iq cf vis" using inv by simp
  have tr: "tree g (start g) cf" and gd: "cur \<in> dom cf" and nv: "cur \<notin> vis"
    using bi unfolding bfs_inv_def by auto
  obtain cs where ch: "chain cf cur cs" using tr gd unfolding tree_def by blast
  have rp: "reconstruct_path cf cur = Some (rev cs)" using ch by (rule chain_reconstruct_path)
  have len: "length cs = Suc (d cur)"
    using ch lvl unfolding bfs_lvl_def by (intro chain_depth) blast+
  have "length (rev cs) \<le> length ps" if "route g ps" for ps
  proof -
    have "path_to g cur ps" using that c by (simp add: route_path_to)
    then obtain x where x: "x \<in> set (cur # q)" "Suc (d x) \<le> length ps"
      using bfs_lower [OF bi lvl _ nv] by blast
    have "sorted (map d (cur # q))" using lvl unfolding bfs_lvl_def by blast
    then have "d cur \<le> d x" using x(1) by auto
    then show ?thesis using x(2) len by simp
  qed
  then show "shortest_ok g (map_option (Pair (steps @ [make_step cur q vis]))
      (reconstruct_path cf cur))"
    unfolding rp by (simp add: shortest_ok_def)
next
  fix cur q iq cf vis steps
  assume "bfs_inv g (cur # q) iq cf vis \<and> (\<exists>d. bfs_lvl g (cur # q) cf vis d)" and "cur \<in> vis"
  then have False unfolding bfs_inv_def by auto
  then show "bfs_inv g q (iq - {cur}) cf vis \<and> (\<exists>d. bfs_lvl g q cf vis d)" ..
next
  fix cur q iq cf vis steps q2 iq2 cf2
  assume inv: "bfs_inv g (cur # q) iq cf vis \<and> (\<exists>d. bfs_lvl g (cur # q) cf vis d)"
    and ng: "cur \<noteq> goal g" and nv: "cur \<notin> vis"
    and e: "bfs_expand (insert cur vis) cur (get_neighbors g cur) (q, iq - {cur}, cf) = (q2, iq2, cf2)"
  then obtain d where lvl: "bfs_lvl g (cur # q) cf vis d" by blast
  have bi: "bfs_inv g (cur # q) iq cf vis" using inv by simp
  have "bfs_inv g q2 iq2 cf2 (insert cur vis)" using bi ng nv e by (rule bfs_inv_expand)
  moreover have "\<exists>d2. bfs_lvl g q2 cf2 (insert cur vis) d2" using bi lvl nv e by (rule bfs_lvl_expand)
  ultimately show "bfs_inv g q2 iq2 cf2 (insert cur vis) \<and> (\<exists>d. bfs_lvl g q2 cf2 (insert cur vis) d)" ..
qed

lemma bfs_shortest: "shortest_ok g (bfs g)"
  unfolding bfs_def
proof (rule bfs_loop_shortest)
  show "bfs_inv g [start g] {start g} [start g \<mapsto> None] {}"
    by (auto simp: bfs_inv_def tree_init)
  show "bfs_lvl g [start g] [start g \<mapsto> None] {} (\<lambda>x. 0)"
    by (simp add: bfs_lvl_def)
qed

section \<open>Neighbour generation\<close>

text \<open>
  Claim C8.  For every grid and every position, \<open>get_neighbors\<close> returns exactly the
  in-bounds non-wall neighbours of the position, in the fixed order up, right, down,
  down-right, left, up-left, with cost 1.0 on the four orthogonal moves and cost 1.414
  on the two diagonal moves (the floats that these two literals denote, see
  \<open>float_round_one\<close> and \<open>float_round_diagonal\<close>): it is the list of the six candidate
  moves \<open>candidates\<close>, in that order,
  from which the cells outside the bounds \<open>0 \<le> r < rows\<close>, \<open>0 \<le> c < cols\<close> and the cells
  in \<open>walls\<close> have been removed, and nothing else.
\<close>

theorem get_neighbors_exact:
  "get_neighbors g p =
     filter (\<lambda>((r, c), w). 0 \<le> r \<and> r < rows g \<and> 0 \<le> c \<and> c < cols g \<and> (r, c) \<notin> walls g)
       (candidates p)"
  unfolding get_neighbors_candidates by (rule filter_cong) (auto split: if_splits)

section \<open>Results of the search functions\<close>

text \<open>\<open>returns r P\<close>: the call returned normally (no exception, no endless loop) a pair
  of a step trace and a path, and they satisfy \<open>P\<close>.\<close>

definition returns :: "result \<Rightarrow> (step list \<Rightarrow> pos list \<Rightarrow> bool) \<Rightarrow> bool" where
  "returns r P \<longleftrightarrow> (\<exists>steps path. r = Some (steps, path) \<and> P steps path)"


lemma returns_sound:
  assumes "search_sound g r"
  shows "returns r (\<lambda>steps path. path = [] \<or> route g path)"
  using assms unfolding search_sound_def returns_def by blast

lemma returns_mono:
  assumes "returns r P" and "\<And>steps path. P steps path \<Longrightarrow> Q steps path"
  shows "returns r Q"
  using assms unfolding returns_def by blast

lemma returns_trace:
  assumes "search_sound g r" and "trace_ok r"
  shows "returns r (\<lambda>steps path. sizes_nondecreasing steps \<and> popped_before {} steps)"
  using assms unfolding search_sound_def trace_ok_def returns_def by blast

lemma returns_btrace:
  assumes "search_sound g r" and "btrace_ok r"
  shows "returns r (\<lambda>steps path. sizes_nondecreasing steps \<and> enqueued_before {} steps)"
  using assms unfolding search_sound_def btrace_ok_def returns_def by blast

lemma returns_iddfs_trace:
  assumes "search_sound g r" and "iddfs_trace_ok g r"
  shows "returns r (\<lambda>steps path. dls_segments g steps \<and> popped_before {} steps)"
  using assms unfolding search_sound_def iddfs_trace_ok_def returns_def by blast

text \<open>The grid of the program.\<close>

definition START :: pos where "START = (1, 1)"
definition GOAL :: pos where "GOAL = (8, 8)"

definition STATIC_WALLS :: "pos set" where
  "STATIC_WALLS = {(2, 3), (3, 3), (4, 3), (4, 4), (4, 5), (6, 5), (6, 6), (6, 7), (5, 7), (3, 7)}"

definition build_grid :: grid where
  "build_grid = \<lparr>rows = ROWS, cols = COLS, start = START, goal = GOAL, walls = STATIC_WALLS\<rparr>"

text \<open>A corridor of one row and \<open>n\<close> columns, from its left end to its right end.\<close>

definition corridor :: "int \<Rightarrow> grid" where
  "corridor n = \<lparr>rows = 1, cols = n, start = (0, 0), goal = (0, n - 1), walls = {}\<rparr>"

text \<open>A grid of four rows and three columns on which the first discovery of a cell is not
  its shallowest.\<close>

definition detour_grid :: grid where
  "detour_grid = \<lparr>rows = 4, cols = 3, start = (0, 0), goal = (3, 1),
     walls = {(1, 1), (2, 0), (0, 2)}\<rparr>"


section \<open>Validity of the returned paths\<close>

text \<open>
  Claim C1.  For each of the six search functions \<open>bfs\<close>, \<open>dfs\<close>, \<open>ucs\<close>, \<open>dls\<close> (with any
  limit), \<open>iddfs\<close> and \<open>bidirectional\<close>, on a grid whose goal is an in-bounds non-wall
  cell: the call returns, and if the returned path is not empty then its first element is
  the start of the grid, its last element is the goal, and each position of the path is
  followed by one of the positions that \<open>get_neighbors\<close> returns for it.
\<close>

theorem returned_paths_valid:
  assumes "is_valid g (goal g)"
  shows "returns (bfs g) (\<lambda>steps path.
           path = [] \<or> hd path = start g \<and> last path = goal g \<and> valid_path g path)
       \<and> returns (dfs g) (\<lambda>steps path.
           path = [] \<or> hd path = start g \<and> last path = goal g \<and> valid_path g path)
       \<and> returns (ucs g) (\<lambda>steps path.
           path = [] \<or> hd path = start g \<and> last path = goal g \<and> valid_path g path)
       \<and> returns (dls g limit) (\<lambda>steps path.
           path = [] \<or> hd path = start g \<and> last path = goal g \<and> valid_path g path)
       \<and> returns (iddfs g) (\<lambda>steps path.
           path = [] \<or> hd path = start g \<and> last path = goal g \<and> valid_path g path)
       \<and> returns (bidirectional g) (\<lambda>steps path.
           path = [] \<or> hd path = start g \<and> last path = goal g \<and> valid_path g path)"
proof -
  have *: "returns r (\<lambda>steps path.
      path = [] \<or> hd path = start g \<and> last path = goal g \<and> valid_path g path)"
    if "search_sound g r" for r
    using returns_sound [OF that] by (rule returns_mono) (auto simp: route_def)
  show ?thesis
    using bfs_ok [of g] dfs_ok [of g] ucs_ok [of g] bidirectional_ok [OF assms]
      dls_sound [of g limit] iddfs_sound [of g]
    by (intro conjI *) (simp_all add: search_ok_sound)
qed

theorem returned_paths_valid_witness:
  "is_valid build_grid (goal build_grid)
   \<and> returns (bfs build_grid) (\<lambda>steps path.
        path = [] \<or> hd path = start build_grid \<and> last path = goal build_grid
          \<and> valid_path build_grid path)
   \<and> returns (bidirectional build_grid) (\<lambda>steps path.
        path = [] \<or> hd path = start build_grid \<and> last path = goal build_grid
          \<and> valid_path build_grid path)"
proof -
  have v: "is_valid build_grid (goal build_grid)"
    by (simp add: build_grid_def GOAL_def ROWS_def COLS_def STATIC_WALLS_def)
  show ?thesis using v returned_paths_valid [OF v, of 15] by blast
qed

section \<open>Minimal cost of the path of uniform-cost search\<close>

text \<open>
  Claim C3.  On every grid on which the goal can be reached from the start, \<open>ucs\<close> returns
  a route from the start to the goal whose accumulated cost is minimal among all routes
  from the start to the goal over the six-neighbour move relation.  The accumulated cost
  of a path is the floating-point sum, taken from the first move to the last, of 1.0 for
  each orthogonal move and 1.414 for each diagonal move, which is how \<open>ucs\<close> accumulates
  \<open>new_cost\<close>.
\<close>

theorem ucs_minimal_cost:
  assumes "route g ps"
  shows "returns (ucs g) (\<lambda>steps path. route g path \<and> path_cost path \<le> path_cost ps)"
proof -
  obtain steps path where r: "ucs g = Some (steps, path)"
    and ok: "if path = [] then (\<forall>ps. \<not> route g ps) else route g path"
    using ucs_cheapest [of g] unfolding cheapest_ok_def search_ok_def by blast
  have "path \<noteq> []" using ok assms by auto
  then have "route g path" using ok by simp
  moreover have "path_cost path \<le> path_cost ps"
    using ucs_cheapest [of g] r assms unfolding cheapest_ok_def by blast
  ultimately show ?thesis using r unfolding returns_def by blast
qed

theorem ucs_minimal_cost_witness:
  "route detour_grid [(0, 0), (0, 1), (1, 2), (2, 2), (2, 1), (3, 1)]
   \<and> map_option snd (ucs detour_grid) = Some [(0, 0), (1, 0), (2, 1), (3, 1)]
   \<and> returns (ucs detour_grid) (\<lambda>steps path. route detour_grid path
        \<and> path_cost path \<le> path_cost [(0, 0), (0, 1), (1, 2), (2, 2), (2, 1), (3, 1)])"
proof -
  have r: "route detour_grid [(0, 0), (0, 1), (1, 2), (2, 2), (2, 1), (3, 1)]" by code_simp
  have e: "map_option snd (ucs detour_grid) = Some [(0, 0), (1, 0), (2, 1), (3, 1)]" by code_simp
  show ?thesis using r e ucs_minimal_cost [OF r] by blast
qed

section \<open>Length of the path of depth-limited search\<close>

text \<open>
  Claim C4.  The claim is that the path returned by \<open>dls\<close> with limit \<open>L\<close> has at most
  \<open>L + 1\<close> cells.  The program does not keep this bound: \<open>came_from\<close> records the parent of
  the first discovery of a cell, while the depth pushed on the stack is that of the latest
  discovery, so the reconstructed path can be longer than the depth at which the goal was
  popped.  On the grid \<open>detour_grid\<close> of four rows and three columns, limit 4 gives a path
  of 6 cells, one more than \<open>L + 1 = 5\<close>, although the route
  \<open>(0, 0), (1, 0), (2, 1), (3, 1)\<close> has 4 cells.
\<close>

theorem dls_path_exceeds_limit:
  "map_option snd (dls detour_grid 4) = Some [(0, 0), (0, 1), (1, 2), (2, 2), (2, 1), (3, 1)]
   \<and> route detour_grid [(0, 0), (1, 0), (2, 1), (3, 1)]"
  by code_simp

section \<open>Empty paths\<close>




section \<open>Sizes of the visited snapshots\<close>




section \<open>Contents of the visited snapshots\<close>

text \<open>
  Claim C7.  The claim is that, for each of the six search functions, the visited set holds
  only positions that were popped from the frontier as the current node before.  This
  fails for \<open>bidirectional\<close>, whose visited sets start as \<open>{start}\<close> and \<open>{goal}\<close> and
  receive a position when it is put in a queue: on a corridor of three cells the snapshot
  of the first step holds the goal \<open>(0, 2)\<close>, which no step has popped, and the snapshot of
  the second step holds \<open>(0, 1)\<close>, which is popped only at the third step.
\<close>

theorem bidirectional_visited_not_popped:
  "map_option (\<lambda>r. map (\<lambda>s. (current s, visited s)) (fst r)) (bidirectional (corridor 3))
     = Some [((0, 0), {(0, 0), (0, 2)}), ((0, 2), {(0, 0), (0, 1), (0, 2)}),
             ((0, 1), {(0, 0), (0, 1), (0, 2)})]"
  by code_simp

text \<open>
  What holds instead (claim C7, amended): on a grid whose goal is an in-bounds non-wall
  cell, every visited snapshot in the trace returned by \<open>bfs\<close>, \<open>dfs\<close>, \<open>ucs\<close>, \<open>dls\<close> and
  \<open>iddfs\<close> holds only positions that were the current node of an earlier step of the
  trace; every visited snapshot in the trace returned by \<open>bidirectional\<close> holds only
  positions that were the current node of that step or of an earlier one, or are in the
  frontier of that step.
\<close>

theorem visited_previously_popped:
  assumes "is_valid g (goal g)"
  shows "returns (bfs g) (\<lambda>steps path. popped_before {} steps)
       \<and> returns (dfs g) (\<lambda>steps path. popped_before {} steps)
       \<and> returns (ucs g) (\<lambda>steps path. popped_before {} steps)
       \<and> returns (dls g limit) (\<lambda>steps path. popped_before {} steps)
       \<and> returns (iddfs g) (\<lambda>steps path. popped_before {} steps)
       \<and> returns (bidirectional g) (\<lambda>steps path. enqueued_before {} steps)"
proof -
  have 1: "returns r (\<lambda>steps path. popped_before {} steps)"
    if "search_sound g r" "trace_ok r" for r
    using returns_trace [OF that] by (rule returns_mono) simp
  have 2: "returns (bidirectional g) (\<lambda>steps path. enqueued_before {} steps)"
    using returns_btrace [OF search_ok_sound [OF bidirectional_ok [OF assms]] bidirectional_trace]
    by (rule returns_mono) simp
  have 3: "returns (iddfs g) (\<lambda>steps path. popped_before {} steps)"
    using returns_iddfs_trace [OF iddfs_sound iddfs_trace] by (rule returns_mono) simp
  show ?thesis
    using 1 [OF search_ok_sound [OF bfs_ok] bfs_trace] 1 [OF search_ok_sound [OF dfs_ok] dfs_trace]
      1 [OF search_ok_sound [OF ucs_ok] ucs_trace] 1 [OF dls_sound dls_trace] 2 3
    by blast
qed

theorem visited_previously_popped_witness:
  "is_valid build_grid (goal build_grid)
   \<and> returns (dfs build_grid) (\<lambda>steps path. popped_before {} steps)
   \<and> returns (bidirectional build_grid) (\<lambda>steps path. enqueued_before {} steps)"
proof -
  have v: "is_valid build_grid (goal build_grid)"
    by (simp add: build_grid_def GOAL_def ROWS_def COLS_def STATIC_WALLS_def)
  show ?thesis using v visited_previously_popped [OF v, of 15] by blast
qed

section \<open>Positions are enqueued once by breadth-first search\<close>

text \<open>
  Claim C10.  In \<open>bfs\<close>, on every grid, every position is enqueued at most once during
  the run.  A position that was enqueued is popped later, and is then the current node of
  a step, or it is still in the queue at the end, and is then in the frontier recorded by
  the last step.  So: the call returns; the current nodes of the steps of the returned
  trace, followed by the frontier of its last step, form a list without repetition (every
  position is the current node of at most one step); at no step is the current node in
  the visited snapshot of that step (the snapshot is taken before the test
  \<open>current in visited\<close>, so the branch that skips a visited position is never taken);
  and the number of steps is the number of distinct popped positions.
\<close>

theorem bfs_enqueues_once:
  "returns (bfs g) (\<lambda>steps path.
     distinct (map current steps @ final_frontier steps)
     \<and> (\<forall>s\<in>set steps. current s \<notin> visited s)
     \<and> length steps = card (current ` set steps))"
proof -
  obtain steps path where r: "bfs g = Some (steps, path)"
    using bfs_ok [of g] unfolding search_ok_def by blast
  have d: "distinct (map current steps @ final_frontier steps)"
    and v: "\<forall>s\<in>set steps. current s \<notin> visited s"
    using bfs_once [of g] r unfolding once_ok_def by blast+
  have "distinct (map current steps)" using d by simp
  then have "card (set (map current steps)) = length (map current steps)" by (rule distinct_card)
  then have "length steps = card (current ` set steps)" by simp
  then show ?thesis using r d v unfolding returns_def by blast
qed

theorem bfs_enqueues_once_witness:
  "map_option (\<lambda>r. map current (fst r)) (bfs (corridor 3)) = Some [(0, 0), (0, 1), (0, 2)]
   \<and> returns (bfs (corridor 3)) (\<lambda>steps path.
     distinct (map current steps @ final_frontier steps)
     \<and> (\<forall>s\<in>set steps. current s \<notin> visited s)
     \<and> length steps = card (current ` set steps))"
proof -
  have "map_option (\<lambda>r. map current (fst r)) (bfs (corridor 3)) = Some [(0, 0), (0, 1), (0, 2)]"
    by code_simp
  then show ?thesis using bfs_enqueues_once [of "corridor 3"] by blast
qed

section \<open>Breadth-first search finds a path with the fewest moves\<close>

text \<open>A wall-free grid of three rows and three columns, from one corner to the opposite
  one.\<close>

definition open_grid :: grid where
  "open_grid = \<lparr>rows = 3, cols = 3, start = (0, 0), goal = (2, 2), walls = {}\<rparr>"

text \<open>
  Claim C2.  On every grid on which the goal can be reached from the start, wall-free
  grids in particular, \<open>bfs\<close> returns a non-empty path that is a route from the start to
  the goal over the six-neighbour move relation and whose number of edges (its number of
  positions minus one) is at most the number of edges of every route from the start to the
  goal: it is the number of edges of a shortest route.
\<close>

theorem bfs_shortest_path:
  assumes "route g ps0"
  shows "returns (bfs g) (\<lambda>steps path. path \<noteq> [] \<and> route g path
           \<and> (\<forall>ps. route g ps \<longrightarrow> length path - 1 \<le> length ps - 1))"
proof -
  obtain steps path where r: "bfs g = Some (steps, path)"
    and ok: "if path = [] then (\<forall>ps. \<not> route g ps) else route g path"
    using bfs_ok [of g] unfolding search_ok_def by blast
  have ne: "path \<noteq> []" using ok assms by auto
  then have rt: "route g path" using ok by simp
  have "length path - 1 \<le> length ps - 1" if "route g ps" for ps
  proof -
    have "length path \<le> length ps" using bfs_shortest [of g] r that unfolding shortest_ok_def by blast
    then show ?thesis by simp
  qed
  then show ?thesis using r ne rt unfolding returns_def by blast
qed

theorem bfs_shortest_path_witness:
  "walls open_grid = {} \<and> route open_grid [(0, 0), (1, 1), (2, 2)]
   \<and> map_option snd (bfs open_grid) = Some [(0, 0), (1, 1), (2, 2)]
   \<and> returns (bfs open_grid) (\<lambda>steps path. path \<noteq> [] \<and> route open_grid path
        \<and> (\<forall>ps. route open_grid ps \<longrightarrow> length path - 1 \<le> length ps - 1))"
proof -
  have w: "walls open_grid = {}" by (simp add: open_grid_def)
  have r: "route open_grid [(0, 0), (1, 1), (2, 2)]" by code_simp
  have e: "map_option snd (bfs open_grid) = Some [(0, 0), (1, 1), (2, 2)]" by code_simp
  show ?thesis using w r e bfs_shortest_path [OF r] by blast
qed

end
